theory Spec2Isabelle
  imports Complex_Main "HOL-Library.Multiset" "HOL-Library.Product_Lexorder"
    "HOL-Library.List_Lexorder" "HOL-Library.Char_ord"
begin

section \<open>Traced graph search: DFS, BFS and A* of ABD.py\<close>

subsection \<open>Data model\<close>

text \<open>
  The graph is a Python dict from node to a dict from neighbour to weight. Both levels
  are association lists in insertion order, since \<open>dfs_collect_trace\<close> walks
  \<open>graph[current_node].items()\<close> in that order. \<open>graph[n]\<close> is \<open>map_of graph n\<close>,
  and a missing key raises KeyError. Nodes are any type; BFS and A* sort them, so
  there they are linearly ordered. Weights are integers, as in the module's own graph.
\<close>

datatype error = KeyError | IndexError

type_synonym 'a graph = "('a \<times> ('a \<times> int) list) list"

text \<open>
  One trace record: the dict appended to \<open>trace\<close>. The key \<open>f\<close> exists only in the
  records of A*, so it is optional; \<open>open\<close> holds nodes for DFS and BFS and pairs
  \<open>(f, node)\<close> for A*. The step index is a whole number or a whole number plus 0.5.
  The \<open>message\<close> entry, a display string formatted from the same values, is left out.
\<close>

record ('a, 'o) trace_rec =
  tr_step :: real
  tr_current :: "'a option"
  tr_path :: "'a list"
  tr_cost :: int
  tr_f :: "int option"
  tr_open :: "'o list"
  tr_closed :: "'a set"
  tr_action :: string

text \<open>The local variables of a search that live across loop iterations.\<close>

record ('a, 'o) loop_vars =
  closed_set :: "'a set"
  trace :: "('a, 'o) trace_rec list"
  nodes_expanded :: nat
  step :: nat

record 'a dfs_vars = "('a, 'a) loop_vars" +
  open_list :: "('a \<times> 'a list \<times> int) list"

record 'a bfs_vars = "('a, 'a) loop_vars" +
  open_queue :: "('a \<times> 'a list \<times> int) list"

record 'a astar_vars = "('a, int \<times> 'a) loop_vars" +
  open_pq :: "(int \<times> int \<times> 'a \<times> 'a list) list"

text \<open>
  The returned tuple \<open>(path, cost, nodes_expanded, step, execution_time, trace)\<close>;
  \<open>path\<close> and \<open>cost\<close> are None when the frontier ran empty.
\<close>

record ('a, 'o) result =
  r_path :: "'a list option"
  r_cost :: "int option"
  r_nodes_expanded :: nat
  r_step :: nat
  r_execution_time :: real
  r_trace :: "('a, 'o) trace_rec list"

text \<open>
  What one pass through the body of a \<open>while\<close> loop does: go round again, return from
  the function with the path and cost found, or raise.
\<close>

datatype ('s, 'r) iteration = Continue 's | Return 'r 's | Raise error

text \<open>
  \<open>time.time()\<close> is read twice, on entry and just before returning. The two readings
  are an input of the model.
\<close>

type_synonym clock = "real \<times> real"

subsection \<open>Depth-first and breadth-first search\<close>

text \<open>
  The \<open>for neighbor, weight in ...\<close> loop of DFS and BFS: every neighbour that is not
  closed is appended to the frontier and to \<open>neighbors_added\<close>.
\<close>

fun push_neighbors :: "'a set \<Rightarrow> 'a list \<Rightarrow> int \<Rightarrow> ('a \<times> int) list \<Rightarrow>
    ('a \<times> 'a list \<times> int) list \<times> 'a list \<Rightarrow> ('a \<times> 'a list \<times> int) list \<times> 'a list" where
  "push_neighbors closed_nodes path cost [] (frontier, neighbors_added) = (frontier, neighbors_added)"
| "push_neighbors closed_nodes path cost ((neighbor, weight) # rest) (frontier, neighbors_added) =
     (if neighbor \<notin> closed_nodes
      then push_neighbors closed_nodes path cost rest
             (frontier @ [(neighbor, path @ [neighbor], cost + weight)], neighbors_added @ [neighbor])
      else push_neighbors closed_nodes path cost rest (frontier, neighbors_added))"

definition dfs_iteration :: "'a graph \<Rightarrow> 'a \<Rightarrow> 'a dfs_vars \<Rightarrow> ('a dfs_vars, 'a list \<times> int) iteration" where
  "dfs_iteration graph goal v =
     (if open_list v = [] then Raise IndexError
      else
        let step1 = step v + 1;
            (current_node, path, cost) = last (open_list v);
            open1 = butlast (open_list v);
            trace1 = trace v @
              [\<lparr>tr_step = real step1, tr_current = Some current_node, tr_path = path,
                tr_cost = cost, tr_f = None, tr_open = map fst open1,
                tr_closed = closed_set v, tr_action = ''Pop from Stack''\<rparr>]
        in if current_node = goal then
             Return (path, cost)
               (v\<lparr>step := step1, open_list := open1,
                  trace := trace1 @
                    [\<lparr>tr_step = real step1 + 1 / 2, tr_current = Some current_node, tr_path = path,
                      tr_cost = cost, tr_f = None, tr_open = map fst open1,
                      tr_closed = closed_set v, tr_action = ''GOAL FOUND!''\<rparr>]\<rparr>)
           else if current_node \<in> closed_set v then
             Continue (v\<lparr>step := step1, open_list := open1, trace := trace1\<rparr>)
           else
             (case map_of graph current_node of
                None \<Rightarrow> Raise KeyError
              | Some adj \<Rightarrow>
                  let closed1 = insert current_node (closed_set v);
                      (open2, neighbors_added) =
                         push_neighbors closed1 path cost (rev adj) (open1, []);
                      trace2 = (if neighbors_added \<noteq> [] then trace1 @
                         [\<lparr>tr_step = real step1 + 1 / 2, tr_current = Some current_node,
                           tr_path = path, tr_cost = cost, tr_f = None, tr_open = map fst open2,
                           tr_closed = closed1, tr_action = ''Expand''\<rparr>]
                         else trace1)
                  in Continue \<lparr>closed_set = closed1, trace = trace2,
                       nodes_expanded = nodes_expanded v + 1, step = step1, open_list = open2\<rparr>))"

definition bfs_iteration :: "('a::linorder) graph \<Rightarrow> 'a \<Rightarrow> 'a bfs_vars \<Rightarrow> ('a bfs_vars, 'a list \<times> int) iteration" where
  "bfs_iteration graph goal v =
     (if open_queue v = [] then Raise IndexError
      else
        let step1 = step v + 1;
            (current_node, path, cost) = hd (open_queue v);
            open1 = tl (open_queue v);
            trace1 = trace v @
              [\<lparr>tr_step = real step1, tr_current = Some current_node, tr_path = path,
                tr_cost = cost, tr_f = None, tr_open = map fst open1,
                tr_closed = closed_set v, tr_action = ''Dequeue''\<rparr>]
        in if current_node = goal then
             Return (path, cost)
               (v\<lparr>step := step1, open_queue := open1,
                  trace := trace1 @
                    [\<lparr>tr_step = real step1 + 1 / 2, tr_current = Some current_node, tr_path = path,
                      tr_cost = cost, tr_f = None, tr_open = map fst open1,
                      tr_closed = closed_set v, tr_action = ''GOAL FOUND!''\<rparr>]\<rparr>)
           else if current_node \<in> closed_set v then
             Continue (v\<lparr>step := step1, open_queue := open1, trace := trace1\<rparr>)
           else
             (case map_of graph current_node of
                None \<Rightarrow> Raise KeyError
              | Some adj \<Rightarrow>
                  let closed1 = insert current_node (closed_set v);
                      (open2, neighbors_added) =
                         push_neighbors closed1 path cost (sort adj) (open1, []);
                      trace2 = (if neighbors_added \<noteq> [] then trace1 @
                         [\<lparr>tr_step = real step1 + 1 / 2, tr_current = Some current_node,
                           tr_path = path, tr_cost = cost, tr_f = None, tr_open = map fst open2,
                           tr_closed = closed1, tr_action = ''Expand''\<rparr>]
                         else trace1)
                  in Continue \<lparr>closed_set = closed1, trace = trace2,
                       nodes_expanded = nodes_expanded v + 1, step = step1, open_queue = open2\<rparr>))"


text \<open>The \<open>for\<close> loop appends one entry per neighbour that is not closed, in order.\<close>

lemma push_neighbors_eq:
  "push_neighbors cl p c adj (fr, ad) =
     (fr @ map (\<lambda>(n, w). (n, p @ [n], c + w)) (filter (\<lambda>(n, w). n \<notin> cl) adj),
      ad @ map fst (filter (\<lambda>(n, w). n \<notin> cl) adj))"
  by (induction adj arbitrary: fr ad) auto

lemma card_unclosed_less:
  assumes "map_of graph n = Some adj" and "n \<notin> cl"
  shows "card (fst ` set graph - insert n cl) < card (fst ` set graph - cl)"
proof -
  have "n \<in> fst ` set graph"
    using assms(1) by (metis map_of_eq_None_iff option.distinct(1))
  then have "fst ` set graph - insert n cl \<subset> fst ` set graph - cl"
    using assms(2) by auto
  then show ?thesis
    by (simp add: psubset_card_mono)
qed

lemma dfs_iteration_decreases:
  assumes "dfs_iteration graph goal v = Continue v'"
  shows "card (fst ` set graph - closed_set v') < card (fst ` set graph - closed_set v) \<or>
         closed_set v' = closed_set v \<and> length (open_list v') < length (open_list v)"
  using assms
  by (auto simp: dfs_iteration_def Let_def push_neighbors_eq card_unclosed_less
           split: if_splits prod.splits option.splits)

lemma bfs_iteration_decreases:
  assumes "bfs_iteration graph goal v = Continue v'"
  shows "card (fst ` set graph - closed_set v') < card (fst ` set graph - closed_set v) \<or>
         closed_set v' = closed_set v \<and> length (open_queue v') < length (open_queue v)"
  using assms
  by (auto simp: bfs_iteration_def Let_def push_neighbors_eq card_unclosed_less
           split: if_splits prod.splits option.splits)

text \<open>
  The \<open>while open_list:\<close> loop. It ends when the frontier is empty, when an iteration
  returns, or when one raises. Each further round either closes one more key of the
  graph or shortens the frontier with the closed set unchanged, so the loop is total.
\<close>

function dfs_loop :: "'a graph \<Rightarrow> 'a \<Rightarrow> 'a dfs_vars \<Rightarrow> error + ('a list \<times> int) option \<times> 'a dfs_vars" where
  "dfs_loop graph goal v =
     (if open_list v = [] then Inr (None, v)
      else case dfs_iteration graph goal v of
             Raise e \<Rightarrow> Inl e
           | Return found v' \<Rightarrow> Inr (Some found, v')
           | Continue v' \<Rightarrow> dfs_loop graph goal v')"
  by pat_completeness auto
termination
proof (relation "measures [\<lambda>(graph, goal, v). card (fst ` set graph - closed_set v),
                           \<lambda>(graph, goal, v). length (open_list v)]")
  show "wf (measures [\<lambda>(graph, goal, v). card (fst ` set graph - closed_set v),
                      \<lambda>(graph::'a graph, goal::'a, v). length (open_list v)])"
    by simp
next
  fix graph :: "'a graph" and goal :: 'a and v v' :: "'a dfs_vars"
  assume "dfs_iteration graph goal v = Continue v'"
  from dfs_iteration_decreases [OF this]
  show "((graph, goal, v'), (graph, goal, v)) \<in>
          measures [\<lambda>(graph, goal, v). card (fst ` set graph - closed_set v),
                    \<lambda>(graph, goal, v). length (open_list v)]"
    by auto
qed

function bfs_loop :: "('a::linorder) graph \<Rightarrow> 'a \<Rightarrow> 'a bfs_vars \<Rightarrow> error + ('a list \<times> int) option \<times> 'a bfs_vars" where
  "bfs_loop graph goal v =
     (if open_queue v = [] then Inr (None, v)
      else case bfs_iteration graph goal v of
             Raise e \<Rightarrow> Inl e
           | Return found v' \<Rightarrow> Inr (Some found, v')
           | Continue v' \<Rightarrow> bfs_loop graph goal v')"
  by pat_completeness auto
termination
proof (relation "measures [\<lambda>(graph, goal, v). card (fst ` set graph - closed_set v),
                           \<lambda>(graph, goal, v). length (open_queue v)]")
  show "wf (measures [\<lambda>(graph, goal, v). card (fst ` set graph - closed_set v),
                      \<lambda>(graph::'a graph, goal::'a, v). length (open_queue v)])"
    by simp
next
  fix graph :: "'a graph" and goal :: 'a and v v' :: "'a bfs_vars"
  assume "bfs_iteration graph goal v = Continue v'"
  from bfs_iteration_decreases [OF this]
  show "((graph, goal, v'), (graph, goal, v)) \<in>
          measures [\<lambda>(graph, goal, v). card (fst ` set graph - closed_set v),
                    \<lambda>(graph, goal, v). length (open_queue v)]"
    by auto
qed

declare dfs_loop.simps [simp del] bfs_loop.simps [simp del]

text \<open>
  The state on entry to the loop, and the whole search up to the \<open>return\<close>: what was
  found, and the loop variables at that moment.
\<close>

definition dfs_init :: "'a \<Rightarrow> 'a dfs_vars" where
  "dfs_init start =
     \<lparr>closed_set = {},
      trace = [\<lparr>tr_step = 0, tr_current = None, tr_path = [], tr_cost = 0, tr_f = None,
                tr_open = [start], tr_closed = {}, tr_action = ''Initialize''\<rparr>],
      nodes_expanded = 0, step = 0, open_list = [(start, [start], 0)]\<rparr>"

definition bfs_init :: "'a \<Rightarrow> 'a bfs_vars" where
  "bfs_init start =
     \<lparr>closed_set = {},
      trace = [\<lparr>tr_step = 0, tr_current = None, tr_path = [], tr_cost = 0, tr_f = None,
                tr_open = [start], tr_closed = {}, tr_action = ''Initialize''\<rparr>],
      nodes_expanded = 0, step = 0, open_queue = [(start, [start], 0)]\<rparr>"

definition make_result :: "clock \<Rightarrow> ('a list \<times> int) option \<Rightarrow> ('a, 'o, 'z) loop_vars_scheme \<Rightarrow> ('a, 'o) result" where
  "make_result clock found v =
     (let start_time = fst clock; execution_time = snd clock - start_time
      in \<lparr>r_path = map_option fst found, r_cost = map_option snd found,
          r_nodes_expanded = nodes_expanded v, r_step = step v,
          r_execution_time = execution_time, r_trace = trace v\<rparr>)"

definition dfs_search :: "'a graph \<Rightarrow> 'a \<Rightarrow> 'a \<Rightarrow> error + ('a list \<times> int) option \<times> 'a dfs_vars" where
  "dfs_search graph start goal = dfs_loop graph goal (dfs_init start)"

definition dfs_collect_trace :: "clock \<Rightarrow> 'a graph \<Rightarrow> 'a \<Rightarrow> 'a \<Rightarrow> error + ('a, 'a) result" where
  "dfs_collect_trace clock graph start goal =
     (case dfs_search graph start goal of
        Inl e \<Rightarrow> Inl e
      | Inr (found, v) \<Rightarrow> Inr (make_result clock found v))"

definition bfs_search :: "('a::linorder) graph \<Rightarrow> 'a \<Rightarrow> 'a \<Rightarrow> error + ('a list \<times> int) option \<times> 'a bfs_vars" where
  "bfs_search graph start goal = bfs_loop graph goal (bfs_init start)"

definition bfs_collect_trace :: "clock \<Rightarrow> ('a::linorder) graph \<Rightarrow> 'a \<Rightarrow> 'a \<Rightarrow> error + ('a, 'a) result" where
  "bfs_collect_trace clock graph start goal =
     (case bfs_search graph start goal of
        Inl e \<Rightarrow> Inl e
      | Inr (found, v) \<Rightarrow> Inr (make_result clock found v))"


subsection \<open>The binary heap of heapq\<close>

text \<open>
  A* keeps its frontier in a list managed by \<open>heapq.heappush\<close> and \<open>heapq.heappop\<close> of
  the Python standard library. They are modelled as the library's own source has them
  (\<open>_siftdown\<close>, \<open>_siftup\<close>, \<open>heappush\<close>, \<open>heappop\<close>), since the trace records the list
  in its heap layout. Items are compared with \<open><\<close> only. In \<open>_siftdown\<close> the item being
  placed is held in \<open>newitem\<close> while parents move down over it; in \<open>_siftup\<close> the smaller
  child moves up until a leaf is reached, and \<open>_siftdown\<close> then places the item.
  Both are always called here with positions inside the list.
\<close>

function siftdown_loop :: "('a::linorder) list \<Rightarrow> nat \<Rightarrow> nat \<Rightarrow> 'a \<Rightarrow> 'a list" where
  "siftdown_loop heap startpos pos newitem =
     (if pos > startpos then
        let parentpos = (pos - 1) div 2;
            parent = heap ! parentpos
        in if newitem < parent
           then siftdown_loop (heap[pos := parent]) startpos parentpos newitem
           else heap[pos := newitem]
      else heap[pos := newitem])"
  by pat_completeness auto
termination
  by (relation "measure (\<lambda>(heap, startpos, pos, newitem). pos)") auto

definition siftdown :: "('a::linorder) list \<Rightarrow> nat \<Rightarrow> nat \<Rightarrow> 'a list" where
  "siftdown heap startpos pos = siftdown_loop heap startpos pos (heap ! pos)"

function siftup_loop :: "('a::linorder) list \<Rightarrow> nat \<Rightarrow> nat \<Rightarrow> nat \<Rightarrow> 'a list \<times> nat" where
  "siftup_loop heap endpos pos childpos =
     (if childpos < endpos then
        let rightpos = childpos + 1;
            childpos1 = (if rightpos < endpos \<and> \<not> heap ! childpos < heap ! rightpos
                         then rightpos else childpos)
        in siftup_loop (heap[pos := heap ! childpos1]) endpos childpos1 (2 * childpos1 + 1)
      else (heap, pos))"
  by pat_completeness auto
termination
  by (relation "measure (\<lambda>(heap, endpos, pos, childpos). endpos - childpos)") auto

definition siftup :: "('a::linorder) list \<Rightarrow> nat \<Rightarrow> 'a list" where
  "siftup heap pos =
     (let endpos = length heap;
          startpos = pos;
          newitem = heap ! pos;
          (heap1, pos1) = siftup_loop heap endpos pos (2 * pos + 1)
      in siftdown (heap1[pos1 := newitem]) startpos pos1)"

definition heappush :: "('a::linorder) list \<Rightarrow> 'a \<Rightarrow> 'a list" where
  "heappush heap item = siftdown (heap @ [item]) 0 (length (heap @ [item]) - 1)"

definition heappop :: "('a::linorder) list \<Rightarrow> error + 'a \<times> 'a list" where
  "heappop heap =
     (if heap = [] then Inl IndexError
      else
        let lastelt = last heap;
            heap1 = butlast heap
        in if heap1 \<noteq> [] then Inr (heap1 ! 0, siftup (heap1[0 := lastelt]) 0)
           else Inr (lastelt, heap1))"

declare siftdown_loop.simps [simp del] siftup_loop.simps [simp del]

text \<open>
  The heap property, and the same property with one position left out: while an item
  is being moved, the entry at \<open>pos\<close> is a hole whose parent is already no larger
  than its children.
\<close>

definition is_heap :: "('a::linorder) list \<Rightarrow> bool" where
  "is_heap h = (\<forall>i. 0 < i \<and> i < length h \<longrightarrow> h ! ((i - 1) div 2) \<le> h ! i)"

definition heap_hole :: "('a::linorder) list \<Rightarrow> nat \<Rightarrow> bool" where
  "heap_hole h pos =
     ((\<forall>i. 0 < i \<and> i < length h \<and> i \<noteq> pos \<and> (i - 1) div 2 \<noteq> pos \<longrightarrow> h ! ((i - 1) div 2) \<le> h ! i) \<and>
      (\<forall>c. 0 < c \<and> c < length h \<and> (c - 1) div 2 = pos \<and> 0 < pos \<longrightarrow> h ! ((pos - 1) div 2) \<le> h ! c))"

lemma length_siftdown_loop [simp]: "length (siftdown_loop h s pos x) = length h"
  by (induction h s pos x rule: siftdown_loop.induct)
     (subst siftdown_loop.simps, auto simp: Let_def)

lemma length_siftup_loop [simp]: "length (fst (siftup_loop h e pos c)) = length h"
  by (induction h e pos c rule: siftup_loop.induct)
     (subst siftup_loop.simps, auto simp: Let_def)

lemma mset_update_swap:
  assumes "i < length h" "j < length h" "i \<noteq> j"
  shows "mset (h[i := h ! j, j := x]) = mset (h[i := x])"
  using assms by (simp add: mset_update nth_list_update)

lemma mset_siftdown_loop:
  "pos < length h \<Longrightarrow> mset (siftdown_loop h s pos x) = mset (h[pos := x])"
proof (induction h s pos x rule: siftdown_loop.induct)
  case (1 heap startpos pos newitem)
  show ?case
  proof (cases "pos > startpos \<and> newitem < heap ! ((pos - 1) div 2)")
    case True
    then have pp: "(pos - 1) div 2 < pos" by auto
    have "mset (siftdown_loop heap startpos pos newitem) =
          mset (siftdown_loop (heap[pos := heap ! ((pos - 1) div 2)]) startpos ((pos - 1) div 2) newitem)"
      using True by (subst siftdown_loop.simps) (simp add: Let_def)
    also have "\<dots> = mset (heap[pos := heap ! ((pos - 1) div 2), (pos - 1) div 2 := newitem])"
      using True pp "1.prems" by (intro "1.IH") auto
    also have "\<dots> = mset (heap[pos := newitem])"
      using pp "1.prems" by (intro mset_update_swap) auto
    finally show ?thesis .
  next
    case False
    then show ?thesis by (subst siftdown_loop.simps) (auto simp: Let_def)
  qed
qed

lemma siftup_loop_pos:
  "pos < length h \<Longrightarrow> e = length h \<Longrightarrow> snd (siftup_loop h e pos c) < length h"
  by (induction h e pos c rule: siftup_loop.induct)
     (subst siftup_loop.simps, auto simp: Let_def)

lemma mset_siftup_loop:
  "pos < length h \<Longrightarrow> e = length h \<Longrightarrow> pos < c \<Longrightarrow>
   mset ((fst (siftup_loop h e pos c))[snd (siftup_loop h e pos c) := x]) = mset (h[pos := x])"
proof (induction h e pos c arbitrary: rule: siftup_loop.induct)
  case (1 heap endpos pos childpos)
  show ?case
  proof (cases "childpos < endpos")
    case True
    define c1 where "c1 = (if childpos + 1 < endpos \<and> \<not> heap ! childpos < heap ! (childpos + 1)
                         then childpos + 1 else childpos)"
    have c1: "c1 < length heap" "pos < c1" "c1 < 2 * c1 + 1"
      using True "1.prems" by (auto simp: c1_def)
    have eq: "siftup_loop heap endpos pos childpos =
              siftup_loop (heap[pos := heap ! c1]) endpos c1 (2 * c1 + 1)"
      using True by (subst siftup_loop.simps) (simp add: Let_def c1_def)
    have "mset ((fst (siftup_loop (heap[pos := heap ! c1]) endpos c1 (2 * c1 + 1)))
                 [snd (siftup_loop (heap[pos := heap ! c1]) endpos c1 (2 * c1 + 1)) := x]) =
          mset (heap[pos := heap ! c1, c1 := x])"
      using True c1 "1.prems" by (intro "1.IH"[OF True refl c1_def]) auto
    also have "\<dots> = mset (heap[pos := x])"
      using c1 "1.prems" by (intro mset_update_swap) auto
    finally show ?thesis by (simp add: eq)
  next
    case False
    then show ?thesis by (subst (1 2) siftup_loop.simps) simp
  qed
qed



lemma parent_less: "0 < n \<Longrightarrow> (n - 1) div 2 < (n::nat)"
  by arith

lemma heap_holeD1:
  "heap_hole h pos \<Longrightarrow> 0 < i \<Longrightarrow> i < length h \<Longrightarrow> i \<noteq> pos \<Longrightarrow> (i - 1) div 2 \<noteq> pos \<Longrightarrow>
   h ! ((i - 1) div 2) \<le> h ! i"
  unfolding heap_hole_def by blast

lemma heap_holeD2:
  "heap_hole h pos \<Longrightarrow> 0 < c \<Longrightarrow> c < length h \<Longrightarrow> (c - 1) div 2 = pos \<Longrightarrow> 0 < pos \<Longrightarrow>
   h ! ((pos - 1) div 2) \<le> h ! c"
  unfolding heap_hole_def by blast

lemma heap_hole_up:
  assumes hole: "heap_hole h pos" and pos: "0 < pos" "pos < length h"
    and pp: "pp = (pos - 1) div 2"
  shows "heap_hole (h[pos := h ! pp]) pp"
  unfolding heap_hole_def
proof (intro conjI allI impI)
  have pp_less: "pp < pos" using pos(1) pp parent_less[of pos] by blast
  fix i assume i: "0 < i \<and> i < length (h[pos := h ! pp]) \<and> i \<noteq> pp \<and> (i - 1) div 2 \<noteq> pp"
  then have ipos: "i \<noteq> pos" using pp by auto
  show "h[pos := h ! pp] ! ((i - 1) div 2) \<le> h[pos := h ! pp] ! i"
  proof (cases "(i - 1) div 2 = pos")
    case True
    have "h ! ((pos - 1) div 2) \<le> h ! i"
      using heap_holeD2[OF hole _ _ True pos(1)] i by simp
    then show ?thesis using True ipos pos pp by simp
  next
    case False
    have "h ! ((i - 1) div 2) \<le> h ! i"
      using heap_holeD1[OF hole _ _ ipos False] i by simp
    then show ?thesis using False ipos by simp
  qed
next
  have pp_less: "pp < pos" using pos(1) pp parent_less[of pos] by blast
  fix c assume c: "0 < c \<and> c < length (h[pos := h ! pp]) \<and> (c - 1) div 2 = pp \<and> 0 < pp"
  then have ppp: "(pp - 1) div 2 < pp" using parent_less[of pp] by blast
  have a: "h ! ((pp - 1) div 2) \<le> h ! pp"
    using heap_holeD1[OF hole, of pp] c pp_less pos ppp by simp
  have upd: "h[pos := h ! pp] ! ((pp - 1) div 2) = h ! ((pp - 1) div 2)"
    using ppp pp_less by simp
  show "h[pos := h ! pp] ! ((pp - 1) div 2) \<le> h[pos := h ! pp] ! c"
  proof (cases "c = pos")
    case True
    then show ?thesis unfolding upd using a pos by simp
  next
    case False
    have "h ! ((c - 1) div 2) \<le> h ! c"
      using heap_holeD1[OF hole _ _ False] c pp_less by simp
    then have "h ! pp \<le> h ! c" using c by simp
    then show ?thesis unfolding upd using a False by simp
  qed
qed

lemma kids_up:
  assumes hole: "heap_hole h pos" and pos: "0 < pos" "pos < length h"
    and pp: "pp = (pos - 1) div 2" and x: "x < h ! pp"
    and c: "0 < c" "c < length h" "(c - 1) div 2 = pp"
  shows "x \<le> h[pos := h ! pp] ! c"
proof (cases "c = pos")
  case True
  then show ?thesis using x pos by simp
next
  case False
  have pp_less: "pp < pos" using pos(1) pp parent_less[of pos] by blast
  have "h ! ((c - 1) div 2) \<le> h ! c"
    using heap_holeD1[OF hole c(1,2) False] c(3) pp_less by simp
  then show ?thesis using False c(3) x by simp
qed

lemma filled_heap:
  assumes hole: "heap_hole h pos" and pos: "pos < length h"
    and up: "0 < pos \<Longrightarrow> h ! ((pos - 1) div 2) \<le> x"
    and kids: "\<And>c. 0 < c \<Longrightarrow> c < length h \<Longrightarrow> (c - 1) div 2 = pos \<Longrightarrow> x \<le> h ! c"
  shows "is_heap (h[pos := x])"
  unfolding is_heap_def
proof (intro allI impI)
  fix i assume i: "0 < i \<and> i < length (h[pos := x])"
  show "h[pos := x] ! ((i - 1) div 2) \<le> h[pos := x] ! i"
  proof (cases "i = pos")
    case True
    then have "(i - 1) div 2 \<noteq> pos" using i by auto
    then show ?thesis using True i up pos by simp
  next
    case ne: False
    show ?thesis
    proof (cases "(i - 1) div 2 = pos")
      case True
      then show ?thesis using ne i kids[of i] pos by simp
    next
      case False
      then show ?thesis
        using ne i heap_holeD1[OF hole _ _ ne False] by simp
    qed
  qed
qed

lemma siftdown_loop_heap:
  "heap_hole h pos \<Longrightarrow> pos < length h \<Longrightarrow> s = 0 \<Longrightarrow>
   (\<forall>c. 0 < c \<and> c < length h \<and> (c - 1) div 2 = pos \<longrightarrow> x \<le> h ! c) \<Longrightarrow>
   is_heap (siftdown_loop h s pos x)"
proof (induction h s pos x rule: siftdown_loop.induct)
  case (1 heap startpos pos newitem)
  define pp where "pp = (pos - 1) div 2"
  show ?case
  proof (cases "pos > startpos \<and> newitem < heap ! pp")
    case True
    then have pp: "pp < pos" "0 < pos" by (auto simp: pp_def)
    let ?h2 = "heap[pos := heap ! pp]"
    have hole: "heap_hole ?h2 pp"
      using heap_hole_up[OF "1.prems"(1) pp(2) "1.prems"(2) pp_def] .
    have kids: "\<forall>c. 0 < c \<and> c < length ?h2 \<and> (c - 1) div 2 = pp \<longrightarrow> newitem \<le> ?h2 ! c"
      using kids_up[OF "1.prems"(1) pp(2) "1.prems"(2) pp_def] True by simp
    have len: "pp < length ?h2" using pp "1.prems"(2) by simp
    have "is_heap (siftdown_loop ?h2 startpos pp newitem)"
      using "1.IH"[OF _ pp_def refl _ hole len "1.prems"(3) kids] True by simp
    then show ?thesis
      using True by (subst siftdown_loop.simps) (simp add: Let_def pp_def)
  next
    case False
    then have res: "siftdown_loop heap startpos pos newitem = heap[pos := newitem]"
      by (subst siftdown_loop.simps) (auto simp: Let_def pp_def)
    have up: "0 < pos \<Longrightarrow> heap ! ((pos - 1) div 2) \<le> newitem"
      using False "1.prems"(3) by (simp add: pp_def)
    show ?thesis
      unfolding res using filled_heap[OF "1.prems"(1,2) up] "1.prems"(4) by blast
  qed
qed


lemma child_cases: "0 < c \<Longrightarrow> (c - 1) div 2 = pos \<Longrightarrow> c = 2 * pos + 1 \<or> c = 2 * pos + (2::nat)"
  by arith

lemma parent_neq: "0 < n \<Longrightarrow> (n - Suc 0) div 2 \<noteq> (n::nat)"
  by arith

lemma heap_hole_fill:
  assumes "heap_hole h pos"
  shows "heap_hole (h[pos := x]) pos"
  unfolding heap_hole_def
proof (intro conjI allI impI)
  fix i assume i: "0 < i \<and> i < length (h[pos := x]) \<and> i \<noteq> pos \<and> (i - 1) div 2 \<noteq> pos"
  then show "h[pos := x] ! ((i - 1) div 2) \<le> h[pos := x] ! i"
    using heap_holeD1[OF assms, of i] by simp
next
  fix c assume c: "0 < c \<and> c < length (h[pos := x]) \<and> (c - 1) div 2 = pos \<and> 0 < pos"
  then have "c \<noteq> pos" "(pos - 1) div 2 \<noteq> pos"
    using parent_less[of c] parent_less[of pos] by auto
  then show "h[pos := x] ! ((pos - 1) div 2) \<le> h[pos := x] ! c"
    using heap_holeD2[OF assms, of c] c by simp
qed

lemma heap_hole_down:
  assumes hole: "heap_hole h pos" and cp: "childpos = 2 * pos + 1" "childpos < length h"
    and c1: "c1 = (if childpos + 1 < length h \<and> \<not> h ! childpos < h ! (childpos + 1)
                   then childpos + 1 else childpos)"
  shows "heap_hole (h[pos := h ! c1]) c1"
  unfolding heap_hole_def
proof (intro conjI allI impI)
  have c1_range: "c1 < length h" "pos < c1" "(c1 - 1) div 2 = pos" "0 < c1"
    using cp c1 by auto
  fix i assume i: "0 < i \<and> i < length (h[pos := h ! c1]) \<and> i \<noteq> c1 \<and> (i - 1) div 2 \<noteq> c1"
  show "h[pos := h ! c1] ! ((i - 1) div 2) \<le> h[pos := h ! c1] ! i"
  proof (cases "i = pos")
    case True
    then have "0 < pos" using i by simp
    then have "h ! ((pos - 1) div 2) \<le> h ! c1"
      using heap_holeD2[OF hole c1_range(4,1,3)] by simp
    moreover have "(pos - 1) div 2 \<noteq> pos" using parent_less[OF \<open>0 < pos\<close>] by simp
    ultimately show ?thesis using True i by simp
  next
    case ne: False
    show ?thesis
    proof (cases "(i - 1) div 2 = pos")
      case True
      then have "i = 2 * pos + 1 \<or> i = 2 * pos + 2" using child_cases i by blast
      then have "h ! c1 \<le> h ! i"
        using i cp c1 by (auto split: if_splits)
      then show ?thesis using True ne i c1_range by simp
    next
      case False
      then show ?thesis
        using ne i heap_holeD1[OF hole _ _ ne False] by simp
    qed
  qed
next
  have c1_range: "c1 < length h" "pos < c1" "(c1 - 1) div 2 = pos" "0 < c1"
    using cp c1 by auto
  fix c assume c: "0 < c \<and> c < length (h[pos := h ! c1]) \<and> (c - 1) div 2 = c1 \<and> 0 < c1"
  then have "c1 < c" using parent_less[of c] by simp
  then have ne: "c \<noteq> pos" "(c - 1) div 2 \<noteq> pos" using c1_range c by auto
  have "h ! ((c - 1) div 2) \<le> h ! c"
    using heap_holeD1[OF hole _ _ ne] c by simp
  then show "h[pos := h ! c1] ! ((c1 - 1) div 2) \<le> h[pos := h ! c1] ! c"
    using c1_range c ne by simp
qed

lemma siftup_loop_hole:
  "heap_hole h pos \<Longrightarrow> e = length h \<Longrightarrow> c = 2 * pos + 1 \<Longrightarrow> pos < length h \<Longrightarrow>
   heap_hole (fst (siftup_loop h e pos c)) (snd (siftup_loop h e pos c)) \<and>
   length h \<le> 2 * snd (siftup_loop h e pos c) + 1"
proof (induction h e pos c rule: siftup_loop.induct)
  case (1 heap endpos pos childpos)
  show ?case
  proof (cases "childpos < endpos")
    case True
    define c1 where "c1 = (if childpos + 1 < endpos \<and> \<not> heap ! childpos < heap ! (childpos + 1)
                         then childpos + 1 else childpos)"
    have eq: "siftup_loop heap endpos pos childpos =
              siftup_loop (heap[pos := heap ! c1]) endpos c1 (2 * c1 + 1)"
      using True by (subst siftup_loop.simps) (simp add: Let_def c1_def)
    have hole: "heap_hole (heap[pos := heap ! c1]) c1"
      using heap_hole_down[OF "1.prems"(1,3)] True "1.prems"(2) c1_def by simp
    have c1: "c1 < length heap" using True "1.prems"(2) by (auto simp: c1_def)
    show ?thesis
      unfolding eq using "1.IH"[OF True refl c1_def hole] "1.prems"(2) c1 by simp
  next
    case False
    then show ?thesis
      using "1.prems" by (subst (1 2 3) siftup_loop.simps) simp
  qed
qed

lemma is_heap_hole_root: "is_heap h \<Longrightarrow> heap_hole h 0"
  unfolding is_heap_def heap_hole_def by simp

lemma is_heap_butlast: "is_heap h \<Longrightarrow> is_heap (butlast h)"
  unfolding is_heap_def
  by (auto simp: nth_butlast dest: parent_less)

lemma is_heap_root_le: "is_heap h \<Longrightarrow> i < length h \<Longrightarrow> h ! 0 \<le> h ! i"
proof (induction i rule: less_induct)
  case (less i)
  show ?case
  proof (cases "i = 0")
    case True then show ?thesis by simp
  next
    case False
    then have "(i - 1) div 2 < i" using parent_less by simp
    moreover have "h ! ((i - 1) div 2) \<le> h ! i"
      using less.prems False unfolding is_heap_def by simp
    ultimately show ?thesis
      using less.IH[of "(i - 1) div 2"] less.prems by force
  qed
qed


lemma length_siftdown [simp]: "length (siftdown h s pos) = length h"
  by (simp add: siftdown_def)

lemma mset_siftdown: "pos < length h \<Longrightarrow> mset (siftdown h s pos) = mset h"
  by (simp add: siftdown_def mset_siftdown_loop)

lemma siftup_eq:
  "siftup_loop h (length h) pos (2 * pos + 1) = (h1, p1) \<Longrightarrow>
   siftup h pos = siftdown_loop (h1[p1 := h ! pos]) pos p1 (h1[p1 := h ! pos] ! p1)"
  by (simp add: siftup_def siftdown_def Let_def)

lemma mset_siftup:
  assumes "pos < length h"
  shows "mset (siftup h pos) = mset h"
proof -
  obtain h1 p1 where r: "siftup_loop h (length h) pos (2 * pos + 1) = (h1, p1)"
    by (cases "siftup_loop h (length h) pos (2 * pos + 1)")
  have len: "length h1 = length h" "p1 < length h"
    using length_siftup_loop[of h "length h" pos "2 * pos + 1"]
      siftup_loop_pos[OF assms refl, of "2 * pos + 1"]
    unfolding r fst_conv snd_conv by blast+
  have "mset (h1[p1 := h ! pos]) = mset (h[pos := h ! pos])"
    using mset_siftup_loop[OF assms refl, of "2 * pos + 1" "h ! pos"] r by simp
  then show ?thesis
    using len by (simp add: siftup_eq[OF r] mset_siftdown_loop)
qed

lemma length_siftup [simp]: "pos < length h \<Longrightarrow> length (siftup h pos) = length h"
  using mset_siftup[of pos h] by (metis size_mset)

lemma is_heap_siftup:
  assumes "heap_hole h 0" and "h \<noteq> []"
  shows "is_heap (siftup h 0)"
proof -
  obtain h1 p1 where r: "siftup_loop h (length h) 0 1 = (h1, p1)"
    by (cases "siftup_loop h (length h) 0 1")
  have pos: "0 < length h" using assms(2) by simp
  have len: "length h1 = length h" "p1 < length h"
    using length_siftup_loop[of h "length h" 0 1] siftup_loop_pos[OF pos refl, of 1]
    unfolding r fst_conv snd_conv by blast+
  have hole: "heap_hole h1 p1" and leaf: "length h \<le> 2 * p1 + 1"
    using siftup_loop_hole[OF assms(1) refl _ pos, of 1] r by simp_all
  have kids: "\<forall>c. 0 < c \<and> c < length (h1[p1 := h ! 0]) \<and> (c - 1) div 2 = p1 \<longrightarrow>
                 h1[p1 := h ! 0] ! p1 \<le> h1[p1 := h ! 0] ! c"
    using leaf len by (auto dest: child_cases)
  have "is_heap (siftdown_loop (h1[p1 := h ! 0]) 0 p1 (h1[p1 := h ! 0] ! p1))"
    using siftdown_loop_heap[OF heap_hole_fill[OF hole] _ refl kids] len by simp
  then show ?thesis
    using siftup_eq[of h 0 h1 p1] r by simp
qed

lemma length_heappush [simp]: "length (heappush h x) = Suc (length h)"
  by (simp add: heappush_def)

lemma mset_heappush [simp]: "mset (heappush h x) = add_mset x (mset h)"
  by (simp add: heappush_def mset_siftdown)

lemma set_heappush [simp]: "set (heappush h x) = insert x (set h)"
  using mset_heappush[of h x] by (metis set_mset_add_mset_insert set_mset_mset)

lemma is_heap_heappush:
  assumes "is_heap h"
  shows "is_heap (heappush h x)"
proof -
  have hole: "heap_hole (h @ [x]) (length h)"
    unfolding heap_hole_def
  proof (intro conjI allI impI)
    fix i assume i: "0 < i \<and> i < length (h @ [x]) \<and> i \<noteq> length h \<and> (i - 1) div 2 \<noteq> length h"
    then have "i < length h" "(i - 1) div 2 < length h"
      using parent_less[of i] by auto
    then show "(h @ [x]) ! ((i - 1) div 2) \<le> (h @ [x]) ! i"
      using assms i unfolding is_heap_def by (simp add: nth_append)
  next
    fix c assume "0 < c \<and> c < length (h @ [x]) \<and> (c - 1) div 2 = length h \<and> 0 < length h"
    then have False using parent_less[of c] by auto
    then show "(h @ [x]) ! ((length h - 1) div 2) \<le> (h @ [x]) ! c" ..
  qed
  have kids: "\<forall>c. 0 < c \<and> c < length (h @ [x]) \<and> (c - 1) div 2 = length h \<longrightarrow>
                 (h @ [x]) ! length h \<le> (h @ [x]) ! c"
    using parent_less by fastforce
  show ?thesis
    using siftdown_loop_heap[OF hole _ refl kids]
    by (simp add: heappush_def siftdown_def)
qed

lemma heappop_nonempty: "h \<noteq> [] \<Longrightarrow> \<exists>x h'. heappop h = Inr (x, h')"
  by (simp add: heappop_def Let_def)

lemma mset_heappop:
  assumes "heappop h = Inr (x, h')"
  shows "mset h = add_mset x (mset h')"
proof -
  have ne: "h \<noteq> []" using assms by (auto simp: heappop_def)
  then have h: "h = butlast h @ [last h]" by simp
  show ?thesis
  proof (cases "butlast h = []")
    case True
    then show ?thesis using assms ne h by (auto simp: heappop_def Let_def)
  next
    case False
    then have x: "x = butlast h ! 0" and h': "h' = siftup ((butlast h)[0 := last h]) 0"
      using assms ne by (auto simp: heappop_def Let_def)
    have pos: "0 < length ((butlast h)[0 := last h])"
      using False by (metis length_greater_0_conv length_list_update)
    have "mset h' = mset ((butlast h)[0 := last h])"
      unfolding h' using pos by (rule mset_siftup)
    also have "\<dots> = add_mset (last h) (mset (butlast h) - {#butlast h ! 0#})"
      using pos by (intro mset_update) (metis length_list_update)
    finally have "add_mset x (mset h') = add_mset (last h) (mset (butlast h))"
      using pos x by (simp add: nth_mem del: length_butlast)
    also have "\<dots> = mset h" by (subst (2) h) simp
    finally show ?thesis by simp
  qed
qed

lemma length_heappop: "heappop h = Inr (x, h') \<Longrightarrow> length h = Suc (length h')"
  using mset_heappop[of h x h'] by (metis size_add_mset size_mset)

lemma set_heappop: "heappop h = Inr (x, h') \<Longrightarrow> set h = insert x (set h')"
  using mset_heappop[of h x h'] by (metis set_mset_add_mset_insert set_mset_mset)

lemma is_heap_heappop:
  assumes "is_heap h" and "heappop h = Inr (x, h')"
  shows "is_heap h'"
proof -
  have ne: "h \<noteq> []" using assms(2) by (auto simp: heappop_def)
  show ?thesis
  proof (cases "butlast h = []")
    case True
    then show ?thesis using assms(2) ne by (auto simp: heappop_def Let_def is_heap_def)
  next
    case False
    then have h': "h' = siftup ((butlast h)[0 := last h]) 0"
      using assms(2) ne by (auto simp: heappop_def Let_def)
    have "heap_hole (butlast h) 0"
      using assms(1) by (intro is_heap_hole_root is_heap_butlast)
    then have "heap_hole ((butlast h)[0 := last h]) 0"
      by (rule heap_hole_fill)
    moreover have "(butlast h)[0 := last h] \<noteq> []"
      using False by (metis list_update_nonempty)
    ultimately show ?thesis
      unfolding h' by (rule is_heap_siftup)
  qed
qed

lemma heappop_least:
  assumes "is_heap h" and "heappop h = Inr (x, h')" and "y \<in> set h"
  shows "x \<le> y"
proof -
  have ne: "h \<noteq> []" using assms(2) by (auto simp: heappop_def)
  have x: "x = h ! 0"
  proof (cases "butlast h = []")
    case True
    then have "h = [last h]" using ne by (metis append_Nil append_butlast_last_id)
    then have "h ! 0 = last h" by (metis nth_Cons_0)
    then show ?thesis using assms(2) ne True by (simp add: heappop_def Let_def)
  next
    case False
    then have "0 < length (butlast h)" by (metis length_greater_0_conv)
    then have "butlast h ! 0 = h ! 0" by (rule nth_butlast)
    then show ?thesis using assms(2) ne False by (simp add: heappop_def Let_def)
  qed
  obtain i where "i < length h" "y = h ! i"
    using assms(3) by (auto simp: in_set_conv_nth)
  then show ?thesis
    using is_heap_root_le[OF assms(1)] x by simp
qed


subsection \<open>A* search\<close>

text \<open>
  The heuristic table is a dict, here a map; \<open>heuristic[n]\<close> raises KeyError on a
  missing node. Frontier entries are tuples \<open>(f, g, node, path)\<close>, compared as Python
  compares tuples: lexicographically. \<open>neighbors_added\<close> holds, for each pushed
  neighbour, the pair that the source formats into a string.
\<close>

fun astar_push :: "(('a::linorder) \<rightharpoonup> int) \<Rightarrow> 'a set \<Rightarrow> 'a list \<Rightarrow> int \<Rightarrow> ('a \<times> int) list \<Rightarrow>
    (int \<times> int \<times> 'a \<times> 'a list) list \<times> ('a \<times> int) list \<Rightarrow>
    error + (int \<times> int \<times> 'a \<times> 'a list) list \<times> ('a \<times> int) list" where
  "astar_push heuristic closed_nodes path g_score [] (pq, neighbors_added) =
     Inr (pq, neighbors_added)"
| "astar_push heuristic closed_nodes path g_score ((neighbor, weight) # rest) (pq, neighbors_added) =
     (if neighbor \<notin> closed_nodes then
        let new_g = g_score + weight
        in (case heuristic neighbor of
              None \<Rightarrow> Inl KeyError
            | Some h \<Rightarrow>
                let new_f = new_g + h
                in astar_push heuristic closed_nodes path g_score rest
                     (heappush pq (new_f, new_g, neighbor, path @ [neighbor]),
                      neighbors_added @ [(neighbor, new_f)]))
      else astar_push heuristic closed_nodes path g_score rest (pq, neighbors_added))"

definition astar_iteration :: "('a::linorder) graph \<Rightarrow> 'a \<Rightarrow> ('a \<rightharpoonup> int) \<Rightarrow> 'a astar_vars \<Rightarrow>
    ('a astar_vars, 'a list \<times> int) iteration" where
  "astar_iteration graph goal heuristic v =
     (case heappop (open_pq v) of
        Inl e \<Rightarrow> Raise e
      | Inr ((f_score, g_score, current_node, path), open1) \<Rightarrow>
          (case heuristic current_node of
             None \<Rightarrow> Raise KeyError
           | Some h_current \<Rightarrow>
               let step1 = step v + 1;
                   trace1 = trace v @
                     [\<lparr>tr_step = real step1, tr_current = Some current_node, tr_path = path,
                       tr_cost = g_score, tr_f = Some f_score,
                       tr_open = map (\<lambda>(f, g, n, p). (f, n)) open1,
                       tr_closed = closed_set v, tr_action = ''Pop min f(n)''\<rparr>]
               in if current_node = goal then
                    Return (path, g_score)
                      (v\<lparr>step := step1, open_pq := open1,
                         trace := trace1 @
                           [\<lparr>tr_step = real step1 + 1 / 2, tr_current = Some current_node,
                             tr_path = path, tr_cost = g_score, tr_f = Some f_score,
                             tr_open = map (\<lambda>(f, g, n, p). (f, n)) open1,
                             tr_closed = closed_set v, tr_action = ''OPTIMAL GOAL!''\<rparr>]\<rparr>)
                  else if current_node \<in> closed_set v then
                    Continue (v\<lparr>step := step1, open_pq := open1, trace := trace1\<rparr>)
                  else
                    (case map_of graph current_node of
                       None \<Rightarrow> Raise KeyError
                     | Some adj \<Rightarrow>
                         let closed1 = insert current_node (closed_set v)
                         in (case astar_push heuristic closed1 path g_score (sort adj) (open1, []) of
                               Inl e \<Rightarrow> Raise e
                             | Inr (open2, neighbors_added) \<Rightarrow>
                                 let trace2 = (if neighbors_added \<noteq> [] then trace1 @
                                       [\<lparr>tr_step = real step1 + 1 / 2,
                                         tr_current = Some current_node, tr_path = path,
                                         tr_cost = g_score, tr_f = Some f_score,
                                         tr_open = map (\<lambda>(f, g, n, p). (f, n)) open2,
                                         tr_closed = closed1, tr_action = ''Expand''\<rparr>]
                                       else trace1)
                                 in Continue \<lparr>closed_set = closed1, trace = trace2,
                                      nodes_expanded = nodes_expanded v + 1, step = step1,
                                      open_pq = open2\<rparr>))))"

lemma astar_iteration_decreases:
  assumes "astar_iteration graph goal heuristic v = Continue v'"
  shows "card (fst ` set graph - closed_set v') < card (fst ` set graph - closed_set v) \<or>
         closed_set v' = closed_set v \<and> length (open_pq v') < length (open_pq v)"
  using assms
  by (auto simp: astar_iteration_def Let_def card_unclosed_less
           split: if_splits prod.splits option.splits sum.splits dest: length_heappop)

function astar_loop :: "('a::linorder) graph \<Rightarrow> 'a \<Rightarrow> ('a \<rightharpoonup> int) \<Rightarrow> 'a astar_vars \<Rightarrow>
    error + ('a list \<times> int) option \<times> 'a astar_vars" where
  "astar_loop graph goal heuristic v =
     (if open_pq v = [] then Inr (None, v)
      else case astar_iteration graph goal heuristic v of
             Raise e \<Rightarrow> Inl e
           | Return found v' \<Rightarrow> Inr (Some found, v')
           | Continue v' \<Rightarrow> astar_loop graph goal heuristic v')"
  by pat_completeness auto
termination
proof (relation "measures [\<lambda>(graph, goal, heuristic, v). card (fst ` set graph - closed_set v),
                           \<lambda>(graph, goal, heuristic, v). length (open_pq v)]")
  show "wf (measures [\<lambda>(graph, goal, heuristic, v). card (fst ` set graph - closed_set v),
                      \<lambda>(graph::'a graph, goal::'a, heuristic::'a \<rightharpoonup> int, v). length (open_pq v)])"
    by simp
next
  fix graph :: "'a graph" and goal :: 'a and heuristic :: "'a \<rightharpoonup> int" and v v' :: "'a astar_vars"
  assume "astar_iteration graph goal heuristic v = Continue v'"
  from astar_iteration_decreases [OF this]
  show "((graph, goal, heuristic, v'), (graph, goal, heuristic, v)) \<in>
          measures [\<lambda>(graph, goal, heuristic, v). card (fst ` set graph - closed_set v),
                    \<lambda>(graph, goal, heuristic, v). length (open_pq v)]"
    by auto
qed

declare astar_loop.simps [simp del]

definition astar_init :: "'a \<Rightarrow> int \<Rightarrow> 'a astar_vars" where
  "astar_init start h_start =
     \<lparr>closed_set = {},
      trace = [\<lparr>tr_step = 0, tr_current = None, tr_path = [], tr_cost = 0, tr_f = Some h_start,
                tr_open = [(h_start, start)], tr_closed = {}, tr_action = ''Initialize''\<rparr>],
      nodes_expanded = 0, step = 0, open_pq = [(h_start, 0, start, [start])]\<rparr>"

definition astar_search :: "('a::linorder) graph \<Rightarrow> 'a \<Rightarrow> 'a \<Rightarrow> ('a \<rightharpoonup> int) \<Rightarrow>
    error + ('a list \<times> int) option \<times> 'a astar_vars" where
  "astar_search graph start goal heuristic =
     (case heuristic start of
        None \<Rightarrow> Inl KeyError
      | Some h_start \<Rightarrow> astar_loop graph goal heuristic (astar_init start h_start))"

definition astar_collect_trace :: "clock \<Rightarrow> ('a::linorder) graph \<Rightarrow> 'a \<Rightarrow> 'a \<Rightarrow> ('a \<rightharpoonup> int) \<Rightarrow>
    error + ('a, int \<times> 'a) result" where
  "astar_collect_trace clock graph start goal heuristic =
     (case astar_search graph start goal heuristic of
        Inl e \<Rightarrow> Inl e
      | Inr (found, v) \<Rightarrow> Inr (make_result clock found v))"


subsection \<open>Paths, costs and well-formed inputs\<close>

text \<open>
  The weight of the edge from \<open>n\<close> to \<open>m\<close> is \<open>graph[n][m]\<close>. A path is a non-empty list
  of nodes whose consecutive pairs are edges; its cost is the sum of their weights.
\<close>

definition edge_weight :: "'a graph \<Rightarrow> 'a \<Rightarrow> 'a \<Rightarrow> int option" where
  "edge_weight graph n m = (case map_of graph n of None \<Rightarrow> None | Some adj \<Rightarrow> map_of adj m)"

fun path_cost :: "'a graph \<Rightarrow> 'a list \<Rightarrow> int option" where
  "path_cost graph [] = None"
| "path_cost graph [n] = Some 0"
| "path_cost graph (n # m # rest) =
     (case edge_weight graph n m of
        None \<Rightarrow> None
      | Some w \<Rightarrow> (case path_cost graph (m # rest) of None \<Rightarrow> None | Some c \<Rightarrow> Some (w + c)))"

definition path_from_to :: "'a graph \<Rightarrow> 'a \<Rightarrow> 'a \<Rightarrow> 'a list \<Rightarrow> bool" where
  "path_from_to graph start goal p =
     (p \<noteq> [] \<and> hd p = start \<and> last p = goal \<and> path_cost graph p \<noteq> None)"

definition reachable :: "'a graph \<Rightarrow> 'a \<Rightarrow> 'a \<Rightarrow> bool" where
  "reachable graph start goal = (\<exists>p. path_from_to graph start goal p)"

text \<open>
  An association list stands for a dict when its keys are distinct. A graph is
  well formed when it is a dict of dicts and every neighbour is itself a key.
\<close>

definition is_dict :: "('k \<times> 'v) list \<Rightarrow> bool" where
  "is_dict kvs = distinct (map fst kvs)"

definition graph_dict :: "'a graph \<Rightarrow> bool" where
  "graph_dict graph = (is_dict graph \<and> list_all (\<lambda>(n, adj). is_dict adj) graph)"

definition wf_graph :: "'a graph \<Rightarrow> bool" where
  "wf_graph graph =
     (graph_dict graph \<and>
      list_all (\<lambda>(n, adj). list_all (\<lambda>(m, w). m \<in> fst ` set graph) adj) graph)"

text \<open>
  The heuristic table covers the graph when it has an entry for every key, and is
  consistent when \<open>h(n) \<le> w(n, m) + h(m)\<close> on every edge.
\<close>

definition covers :: "('a \<rightharpoonup> int) \<Rightarrow> 'a graph \<Rightarrow> bool" where
  "covers heuristic graph = list_all (\<lambda>(n, adj). heuristic n \<noteq> None) graph"

definition consistent :: "('a \<rightharpoonup> int) \<Rightarrow> 'a graph \<Rightarrow> bool" where
  "consistent heuristic graph =
     list_all (\<lambda>(n, adj). list_all (\<lambda>(m, w).
        (case (heuristic n, heuristic m) of
           (Some hn, Some hm) \<Rightarrow> hn \<le> w + hm
         | _ \<Rightarrow> True)) adj) graph"

subsection \<open>Reasoning about the loops\<close>

text \<open>
  A property that holds on entry and is kept by every iteration that goes round again
  holds for the state in which the loop ends, or in which the last iteration returns.
  If moreover no iteration raises, the loop returns.
\<close>

lemma dfs_loop_rule:
  assumes "dfs_loop graph goal v = Inr (found, v')"
    and "I v"
    and "\<And>u u'. I u \<Longrightarrow> open_list u \<noteq> [] \<Longrightarrow> dfs_iteration graph goal u = Continue u' \<Longrightarrow> I u'"
  shows "\<exists>u. I u \<and> (found = None \<and> u = v' \<and> open_list u = [] \<or>
           open_list u \<noteq> [] \<and> (\<exists>fd. found = Some fd \<and> dfs_iteration graph goal u = Return fd v'))"
  using assms
proof (induction graph goal v rule: dfs_loop.induct)
  case (1 graph goal v)
  show ?case
  proof (cases "open_list v = []")
    case True
    then show ?thesis using "1.prems" by (auto simp: dfs_loop.simps[of graph goal v])
  next
    case False
    show ?thesis
    proof (cases "dfs_iteration graph goal v")
      case (Continue u')
      then have "dfs_loop graph goal u' = Inr (found, v')"
        using "1.prems"(1) False by (simp add: dfs_loop.simps[of graph goal v])
      moreover have "I u'" using "1.prems"(3)[OF "1.prems"(2) False Continue] .
      ultimately show ?thesis using "1.IH"[OF False Continue] "1.prems"(3) by blast
    next
      case (Return fd u')
      then show ?thesis
        using "1.prems" False by (auto simp: dfs_loop.simps[of graph goal v])
    next
      case (Raise e)
      then show ?thesis
        using "1.prems" False by (simp add: dfs_loop.simps[of graph goal v])
    qed
  qed
qed

lemma dfs_loop_returns:
  assumes "I v"
    and "\<And>u u'. I u \<Longrightarrow> open_list u \<noteq> [] \<Longrightarrow> dfs_iteration graph goal u = Continue u' \<Longrightarrow> I u'"
    and "\<And>u e. I u \<Longrightarrow> open_list u \<noteq> [] \<Longrightarrow> dfs_iteration graph goal u \<noteq> Raise e"
  shows "\<exists>r. dfs_loop graph goal v = Inr r"
  using assms
proof (induction graph goal v rule: dfs_loop.induct)
  case (1 graph goal v)
  show ?case
  proof (cases "open_list v = []")
    case True
    then show ?thesis by (simp add: dfs_loop.simps[of graph goal v])
  next
    case False
    show ?thesis
    proof (cases "dfs_iteration graph goal v")
      case (Continue u')
      have "I u'" using "1.prems"(2)[OF "1.prems"(1) False Continue] .
      then have "\<exists>r. dfs_loop graph goal u' = Inr r"
        using "1.IH"[OF False Continue] "1.prems"(2,3) by blast
      then show ?thesis
        using False Continue by (simp add: dfs_loop.simps[of graph goal v])
    next
      case (Return fd u')
      then show ?thesis
        using False by (simp add: dfs_loop.simps[of graph goal v])
    next
      case (Raise e)
      then show ?thesis
        using "1.prems"(3)[OF "1.prems"(1) False] by simp
    qed
  qed
qed

lemma bfs_loop_rule:
  assumes "bfs_loop graph goal v = Inr (found, v')"
    and "I v"
    and "\<And>u u'. I u \<Longrightarrow> open_queue u \<noteq> [] \<Longrightarrow> bfs_iteration graph goal u = Continue u' \<Longrightarrow> I u'"
  shows "\<exists>u. I u \<and> (found = None \<and> u = v' \<and> open_queue u = [] \<or>
           open_queue u \<noteq> [] \<and> (\<exists>fd. found = Some fd \<and> bfs_iteration graph goal u = Return fd v'))"
  using assms
proof (induction graph goal v rule: bfs_loop.induct)
  case (1 graph goal v)
  show ?case
  proof (cases "open_queue v = []")
    case True
    then show ?thesis using "1.prems" by (auto simp: bfs_loop.simps[of graph goal v])
  next
    case False
    show ?thesis
    proof (cases "bfs_iteration graph goal v")
      case (Continue u')
      then have "bfs_loop graph goal u' = Inr (found, v')"
        using "1.prems"(1) False by (simp add: bfs_loop.simps[of graph goal v])
      moreover have "I u'" using "1.prems"(3)[OF "1.prems"(2) False Continue] .
      ultimately show ?thesis using "1.IH"[OF False Continue] "1.prems"(3) by blast
    next
      case (Return fd u')
      then show ?thesis
        using "1.prems" False by (auto simp: bfs_loop.simps[of graph goal v])
    next
      case (Raise e)
      then show ?thesis
        using "1.prems" False by (simp add: bfs_loop.simps[of graph goal v])
    qed
  qed
qed

lemma bfs_loop_returns:
  assumes "I v"
    and "\<And>u u'. I u \<Longrightarrow> open_queue u \<noteq> [] \<Longrightarrow> bfs_iteration graph goal u = Continue u' \<Longrightarrow> I u'"
    and "\<And>u e. I u \<Longrightarrow> open_queue u \<noteq> [] \<Longrightarrow> bfs_iteration graph goal u \<noteq> Raise e"
  shows "\<exists>r. bfs_loop graph goal v = Inr r"
  using assms
proof (induction graph goal v rule: bfs_loop.induct)
  case (1 graph goal v)
  show ?case
  proof (cases "open_queue v = []")
    case True
    then show ?thesis by (simp add: bfs_loop.simps[of graph goal v])
  next
    case False
    show ?thesis
    proof (cases "bfs_iteration graph goal v")
      case (Continue u')
      have "I u'" using "1.prems"(2)[OF "1.prems"(1) False Continue] .
      then have "\<exists>r. bfs_loop graph goal u' = Inr r"
        using "1.IH"[OF False Continue] "1.prems"(2,3) by blast
      then show ?thesis
        using False Continue by (simp add: bfs_loop.simps[of graph goal v])
    next
      case (Return fd u')
      then show ?thesis
        using False by (simp add: bfs_loop.simps[of graph goal v])
    next
      case (Raise e)
      then show ?thesis
        using "1.prems"(3)[OF "1.prems"(1) False] by simp
    qed
  qed
qed

lemma astar_loop_rule:
  assumes "astar_loop graph goal heuristic v = Inr (found, v')"
    and "I v"
    and "\<And>u u'. I u \<Longrightarrow> open_pq u \<noteq> [] \<Longrightarrow> astar_iteration graph goal heuristic u = Continue u' \<Longrightarrow> I u'"
  shows "\<exists>u. I u \<and> (found = None \<and> u = v' \<and> open_pq u = [] \<or>
           open_pq u \<noteq> [] \<and> (\<exists>fd. found = Some fd \<and> astar_iteration graph goal heuristic u = Return fd v'))"
  using assms
proof (induction graph goal heuristic v rule: astar_loop.induct)
  case (1 graph goal heuristic v)
  show ?case
  proof (cases "open_pq v = []")
    case True
    then show ?thesis using "1.prems" by (auto simp: astar_loop.simps[of graph goal heuristic v])
  next
    case False
    show ?thesis
    proof (cases "astar_iteration graph goal heuristic v")
      case (Continue u')
      then have "astar_loop graph goal heuristic u' = Inr (found, v')"
        using "1.prems"(1) False by (simp add: astar_loop.simps[of graph goal heuristic v])
      moreover have "I u'" using "1.prems"(3)[OF "1.prems"(2) False Continue] .
      ultimately show ?thesis using "1.IH"[OF False Continue] "1.prems"(3) by blast
    next
      case (Return fd u')
      then show ?thesis
        using "1.prems" False by (auto simp: astar_loop.simps[of graph goal heuristic v])
    next
      case (Raise e)
      then show ?thesis
        using "1.prems" False by (simp add: astar_loop.simps[of graph goal heuristic v])
    qed
  qed
qed

lemma astar_loop_returns:
  assumes "I v"
    and "\<And>u u'. I u \<Longrightarrow> open_pq u \<noteq> [] \<Longrightarrow> astar_iteration graph goal heuristic u = Continue u' \<Longrightarrow> I u'"
    and "\<And>u e. I u \<Longrightarrow> open_pq u \<noteq> [] \<Longrightarrow> astar_iteration graph goal heuristic u \<noteq> Raise e"
  shows "\<exists>r. astar_loop graph goal heuristic v = Inr r"
  using assms
proof (induction graph goal heuristic v rule: astar_loop.induct)
  case (1 graph goal heuristic v)
  show ?case
  proof (cases "open_pq v = []")
    case True
    then show ?thesis by (simp add: astar_loop.simps[of graph goal heuristic v])
  next
    case False
    show ?thesis
    proof (cases "astar_iteration graph goal heuristic v")
      case (Continue u')
      have "I u'" using "1.prems"(2)[OF "1.prems"(1) False Continue] .
      then have "\<exists>r. astar_loop graph goal heuristic u' = Inr r"
        using "1.IH"[OF False Continue] "1.prems"(2,3) by blast
      then show ?thesis
        using False Continue by (simp add: astar_loop.simps[of graph goal heuristic v])
    next
      case (Return fd u')
      then show ?thesis
        using False by (simp add: astar_loop.simps[of graph goal heuristic v])
    next
      case (Raise e)
      then show ?thesis
        using "1.prems"(3)[OF "1.prems"(1) False] by simp
    qed
  qed
qed

subsection \<open>Invariants of the three loops\<close>

definition count_inv :: "('a, 'o, 'z) loop_vars_scheme \<Rightarrow> bool" where
  "count_inv v =
     (finite (closed_set v) \<and> nodes_expanded v = card (closed_set v) \<and>
      sorted_wrt (\<subseteq>) (map tr_closed (trace v)) \<and>
      (\<forall>r \<in> set (trace v). tr_closed r \<subseteq> closed_set v))"

definition trace_inv :: "string \<Rightarrow> 'o list \<Rightarrow> ('a, 'o, 'z) loop_vars_scheme \<Rightarrow> bool" where
  "trace_inv goal_action frontier v =
     (trace v \<noteq> [] \<and> tr_open (last (trace v)) = frontier \<and>
      (\<forall>r \<in> set (trace v). tr_action r \<noteq> goal_action))"

definition goal_trace :: "string \<Rightarrow> ('a list \<times> int) \<Rightarrow> ('a, 'o, 'z) loop_vars_scheme \<Rightarrow> bool" where
  "goal_trace goal_action found v =
     (trace v \<noteq> [] \<and> tr_action (last (trace v)) = goal_action \<and>
      tr_path (last (trace v)) = fst found \<and> tr_cost (last (trace v)) = snd found \<and>
      (\<forall>r \<in> set (butlast (trace v)). tr_action r \<noteq> goal_action))"

lemma dfs_count_Continue:
  "dfs_iteration graph goal u = Continue u' \<Longrightarrow> count_inv u \<Longrightarrow> count_inv u'"
  by (auto simp: dfs_iteration_def Let_def count_inv_def sorted_wrt_append
           split: if_splits prod.splits option.splits; blast)

lemma dfs_count_Return:
  "dfs_iteration graph goal u = Return fd u' \<Longrightarrow> count_inv u \<Longrightarrow> count_inv u'"
  by (auto simp: dfs_iteration_def Let_def count_inv_def sorted_wrt_append
           split: if_splits prod.splits option.splits; blast)

lemma dfs_trace_Continue:
  "dfs_iteration graph goal u = Continue u' \<Longrightarrow> trace_inv ''GOAL FOUND!'' (map fst (open_list u)) u \<Longrightarrow>
   trace_inv ''GOAL FOUND!'' (map fst (open_list u')) u'"
  by (auto simp: dfs_iteration_def Let_def trace_inv_def push_neighbors_eq
           split: if_splits prod.splits option.splits)

lemma dfs_trace_Return:
  "dfs_iteration graph goal u = Return fd u' \<Longrightarrow> trace_inv ''GOAL FOUND!'' (map fst (open_list u)) u \<Longrightarrow>
   goal_trace ''GOAL FOUND!'' fd u'"
  by (auto simp: dfs_iteration_def Let_def trace_inv_def goal_trace_def butlast_append
           split: if_splits prod.splits option.splits)


lemma path_cost_snoc:
  "p \<noteq> [] \<Longrightarrow> path_cost graph (p @ [m]) =
     (case path_cost graph p of
        None \<Rightarrow> None
      | Some c \<Rightarrow> (case edge_weight graph (last p) m of None \<Rightarrow> None | Some w \<Rightarrow> Some (c + w)))"
  by (induction graph p rule: path_cost.induct) (auto split: option.splits)

lemma edge_weight_dict:
  assumes "graph_dict graph" and "map_of graph n = Some adj" and "(m, w) \<in> set adj"
  shows "edge_weight graph n m = Some w"
proof -
  have "(n, adj) \<in> set graph" using assms(2) by (rule map_of_SomeD)
  then have "distinct (map fst adj)"
    using assms(1) by (auto simp: graph_dict_def is_dict_def list_all_iff)
  then show ?thesis
    using assms(2,3) by (simp add: edge_weight_def)
qed

definition entry_inv :: "'a graph \<Rightarrow> 'a \<Rightarrow> 'a \<times> 'a list \<times> int \<Rightarrow> bool" where
  "entry_inv graph start e =
     (case e of (n, p, c) \<Rightarrow> path_from_to graph start n p \<and> path_cost graph p = Some c)"

lemma entry_inv_push:
  assumes "graph_dict graph" and "entry_inv graph start (n, p, c)"
    and "map_of graph n = Some adj" and "(m, w) \<in> set adj"
  shows "entry_inv graph start (m, p @ [m], c + w)"
  using assms(2) edge_weight_dict[OF assms(1,3,4)]
  by (auto simp: entry_inv_def path_from_to_def path_cost_snoc)

lemma entry_inv_start: "entry_inv graph start (start, [start], 0)"
  by (simp add: entry_inv_def path_from_to_def)



text \<open>
  What one iteration that goes round again does to the set of frontier entries \<open>E\<close> and
  the closed set \<open>C\<close>, whatever the discipline of the frontier: the popped entry \<open>e\<close>
  leaves; if its node was not closed it is closed now and its open neighbours enter.
\<close>

definition successors :: "'a set \<Rightarrow> 'a list \<Rightarrow> int \<Rightarrow> ('a \<times> int) list \<Rightarrow> ('a \<times> 'a list \<times> int) set" where
  "successors C p c adj = (\<lambda>(m, w). (m, p @ [m], c + w)) ` {(m, w) \<in> set adj. m \<notin> C}"

definition search_step :: "'a graph \<Rightarrow> 'a \<Rightarrow> 'a \<times> 'a list \<times> int \<Rightarrow>
    ('a \<times> 'a list \<times> int) set \<Rightarrow> 'a set \<Rightarrow> ('a \<times> 'a list \<times> int) set \<Rightarrow> 'a set \<Rightarrow> bool" where
  "search_step graph goal e E C E' C' =
     (case e of (n, p, c) \<Rightarrow>
        e \<in> E \<and> n \<noteq> goal \<and>
        (if n \<in> C then C' = C \<and> E - {e} \<subseteq> E' \<and> E' \<subseteq> E
         else C' = insert n C \<and>
              (\<exists>adj. map_of graph n = Some adj \<and>
                 E' \<subseteq> E \<union> successors C' p c adj \<and>
                 (E - {e}) \<union> successors C' p c adj \<subseteq> E')))"

lemma set_butlast_last: "xs \<noteq> [] \<Longrightarrow> set xs - {last xs} \<subseteq> set (butlast xs)"
  by (induction xs) auto

lemma set_tl_hd: "xs \<noteq> [] \<Longrightarrow> set xs - {hd xs} \<subseteq> set (tl xs)"
  by (cases xs) auto

lemma successors_eq:
  "set (map (\<lambda>(m, w). (m, p @ [m], c + w)) (filter (\<lambda>(m, w). m \<notin> C) adj)) = successors C p c adj"
  by (auto simp: successors_def)

lemma dfs_Continue_step:
  assumes "dfs_iteration graph goal u = Continue u'"
  shows "open_list u \<noteq> [] \<and>
         search_step graph goal (last (open_list u)) (set (open_list u)) (closed_set u)
           (set (open_list u')) (closed_set u')"
proof -
  have ne: "open_list u \<noteq> []"
    using assms by (auto simp: dfs_iteration_def)
  obtain n p c where l: "last (open_list u) = (n, p, c)"
    by (cases "last (open_list u)")
  have sub: "set (open_list u) - {(n, p, c)} \<subseteq> set (butlast (open_list u))"
    "set (butlast (open_list u)) \<subseteq> set (open_list u)" "(n, p, c) \<in> set (open_list u)"
    using set_butlast_last[OF ne] l last_in_set[OF ne] by (auto dest: in_set_butlastD)
  show ?thesis
  proof (cases "n \<in> closed_set u")
    case True
    then show ?thesis
      using assms ne l sub
      by (auto simp: dfs_iteration_def Let_def search_step_def split: if_splits)
  next
    case False
    then obtain adj where adj: "map_of graph n = Some adj"
      using assms ne l by (auto simp: dfs_iteration_def Let_def split: if_splits option.splits)
    have o: "open_list u' = butlast (open_list u) @
                 map (\<lambda>(m, w). (m, p @ [m], c + w))
                   (filter (\<lambda>(m, w). m \<notin> insert n (closed_set u)) (rev adj))"
      and c: "closed_set u' = insert n (closed_set u)" and g: "n \<noteq> goal"
      using assms ne l False adj
      by (auto simp: dfs_iteration_def Let_def push_neighbors_eq split: if_splits prod.splits)
    have s: "successors (insert n (closed_set u)) p c (rev adj) =
             successors (insert n (closed_set u)) p c adj"
      by (auto simp: successors_def)
    have "set (open_list u') = set (butlast (open_list u)) \<union> successors (insert n (closed_set u)) p c adj"
      unfolding o set_append successors_eq s ..
    then show ?thesis
      using ne l False adj c g sub unfolding search_step_def by auto
  qed
qed

lemma dfs_Return_open:
  assumes "dfs_iteration graph goal u = Return fd u'"
  shows "open_list u \<noteq> [] \<and> last (open_list u) = (goal, fd)"
  using assms
  by (auto simp: dfs_iteration_def Let_def split: if_splits prod.splits option.splits)

lemma dfs_Raise_open:
  assumes "dfs_iteration graph goal u = Raise e"
  shows "open_list u = [] \<or> map_of graph (fst (last (open_list u))) = None"
  using assms
  by (auto simp: dfs_iteration_def Let_def split: if_splits prod.splits option.splits)

lemma bfs_Continue_step:
  assumes "bfs_iteration graph goal u = Continue u'"
  shows "open_queue u \<noteq> [] \<and>
         search_step graph goal (hd (open_queue u)) (set (open_queue u)) (closed_set u)
           (set (open_queue u')) (closed_set u')"
proof -
  have ne: "open_queue u \<noteq> []"
    using assms by (auto simp: bfs_iteration_def)
  obtain n p c where l: "hd (open_queue u) = (n, p, c)"
    by (cases "hd (open_queue u)")
  have sub: "set (open_queue u) - {(n, p, c)} \<subseteq> set (tl (open_queue u))"
    "set (tl (open_queue u)) \<subseteq> set (open_queue u)" "(n, p, c) \<in> set (open_queue u)"
    using set_tl_hd[OF ne] l hd_in_set[OF ne] by (auto dest: list.set_sel(2)[OF ne])
  show ?thesis
  proof (cases "n \<in> closed_set u")
    case True
    then show ?thesis
      using assms ne l sub
      by (auto simp: bfs_iteration_def Let_def search_step_def split: if_splits)
  next
    case False
    then obtain adj where adj: "map_of graph n = Some adj"
      using assms ne l by (auto simp: bfs_iteration_def Let_def split: if_splits option.splits)
    have o: "open_queue u' = tl (open_queue u) @
                 map (\<lambda>(m, w). (m, p @ [m], c + w))
                   (filter (\<lambda>(m, w). m \<notin> insert n (closed_set u)) (sort adj))"
      and c: "closed_set u' = insert n (closed_set u)" and g: "n \<noteq> goal"
      using assms ne l False adj
      by (auto simp: bfs_iteration_def Let_def push_neighbors_eq split: if_splits prod.splits)
    have s: "successors (insert n (closed_set u)) p c (sort adj) =
             successors (insert n (closed_set u)) p c adj"
      by (auto simp: successors_def)
    have "set (open_queue u') = set (tl (open_queue u)) \<union> successors (insert n (closed_set u)) p c adj"
      unfolding o set_append successors_eq s ..
    then show ?thesis
      using ne l False adj c g sub unfolding search_step_def by auto
  qed
qed

lemma bfs_Return_open:
  assumes "bfs_iteration graph goal u = Return fd u'"
  shows "open_queue u \<noteq> [] \<and> hd (open_queue u) = (goal, fd)"
  using assms
  by (auto simp: bfs_iteration_def Let_def split: if_splits prod.splits option.splits)

lemma bfs_Raise_open:
  assumes "bfs_iteration graph goal u = Raise e"
  shows "open_queue u = [] \<or> map_of graph (fst (hd (open_queue u))) = None"
  using assms
  by (auto simp: bfs_iteration_def Let_def split: if_splits prod.splits option.splits)


lemma step_entries:
  assumes "search_step graph goal e E C E' C'" and "graph_dict graph"
    and "\<forall>x \<in> E. entry_inv graph start x"
  shows "\<forall>x \<in> E'. entry_inv graph start x"
proof -
  obtain n p c where e: "e = (n, p, c)" by (cases e)
  have en: "entry_inv graph start (n, p, c)"
    using assms(1,3) e by (auto simp: search_step_def)
  have "entry_inv graph start x" if "map_of graph n = Some adj" "x \<in> successors C' p c adj" for x adj
    using that entry_inv_push[OF assms(2) en that(1)] by (auto simp: successors_def)
  then show ?thesis
    using assms(1,3) e by (auto simp: search_step_def split: if_splits)
qed

lemma step_keys:
  assumes "search_step graph goal e E C E' C'" and "wf_graph graph"
    and "\<forall>x \<in> E. fst x \<in> fst ` set graph"
  shows "\<forall>x \<in> E'. fst x \<in> fst ` set graph"
proof -
  obtain n p c where e: "e = (n, p, c)" by (cases e)
  have "fst x \<in> fst ` set graph" if "map_of graph n = Some adj" "x \<in> successors C' p c adj" for x adj
  proof -
    have "(n, adj) \<in> set graph" using that(1) by (rule map_of_SomeD)
    then have "\<forall>(m, w) \<in> set adj. m \<in> fst ` set graph"
      using assms(2) by (auto simp: wf_graph_def list_all_iff)
    then show ?thesis using that(2) by (auto simp: successors_def)
  qed
  then show ?thesis
    using assms(1,3) e by (auto simp: search_step_def split: if_splits)
qed

lemma step_goal_open:
  "search_step graph goal e E C E' C' \<Longrightarrow> goal \<notin> C \<Longrightarrow> goal \<notin> C'"
  by (auto simp: search_step_def split: if_splits)

lemma astar_push_Inr:
  "astar_push h C p g adj (pq, ad) = Inr (pq', ad') \<Longrightarrow>
     mset pq' = mset pq +
       mset (map (\<lambda>(m, w). (g + w + the (h m), g + w, m, p @ [m])) (filter (\<lambda>(m, w). m \<notin> C) adj)) \<and>
     ad' = ad @ map (\<lambda>(m, w). (m, g + w + the (h m))) (filter (\<lambda>(m, w). m \<notin> C) adj) \<and>
     (\<forall>(m, w) \<in> set adj. m \<notin> C \<longrightarrow> h m \<noteq> None) \<and>
     (is_heap pq \<longrightarrow> is_heap pq') \<and>
     (filter (\<lambda>(m, w). m \<notin> C) adj = [] \<longrightarrow> pq' = pq)"
proof (induction adj arbitrary: pq ad)
  case Nil
  then show ?case by simp
next
  case (Cons a adj)
  obtain m w where a: "a = (m, w)" by (cases a)
  show ?case
  proof (cases "m \<in> C")
    case True
    then show ?thesis using Cons.IH[of pq ad] Cons.prems a by simp
  next
    case False
    then obtain hm where hm: "h m = Some hm"
      using Cons.prems a by (auto simp: Let_def split: option.splits)
    have "astar_push h C p g adj (heappush pq (g + w + hm, g + w, m, p @ [m]), ad @ [(m, g + w + hm)]) =
          Inr (pq', ad')"
      using Cons.prems a False hm by (simp add: Let_def)
    from Cons.IH[OF this] show ?thesis
      using a False hm by (simp add: is_heap_heappush)
  qed
qed

lemma astar_push_total:
  "\<forall>(m, w) \<in> set adj. m \<notin> C \<longrightarrow> h m \<noteq> None \<Longrightarrow> \<exists>r. astar_push h C p g adj acc = Inr r"
proof (induction adj arbitrary: acc)
  case Nil
  then show ?case by (cases acc) simp
next
  case (Cons a adj)
  then show ?case
    by (cases a; cases acc) (auto simp: Let_def split: option.splits)
qed


definition pq_entries :: "(int \<times> int \<times> 'a \<times> 'a list) list \<Rightarrow> ('a \<times> 'a list \<times> int) set" where
  "pq_entries pq = (\<lambda>(f, g, n, p). (n, p, g)) ` set pq"

definition pq_inv :: "('a \<rightharpoonup> int) \<Rightarrow> (int \<times> int \<times> ('a::linorder) \<times> 'a list) list \<Rightarrow> bool" where
  "pq_inv heuristic pq = (is_heap pq \<and> (\<forall>(f, g, n, p) \<in> set pq. heuristic n = Some (f - g)))"

lemma pq_entries_pushed:
  "pq_entries (map (\<lambda>(m, w). (g + w + the (h m), g + w, m, p @ [m])) (filter (\<lambda>(m, w). m \<notin> C) adj)) =
   successors C p g adj"
  by (auto simp: pq_entries_def successors_def image_iff)


lemma astar_Continue_step:
  assumes "astar_iteration graph goal heuristic u = Continue u'"
  shows "\<exists>f g n p open1. heappop (open_pq u) = Inr ((f, g, n, p), open1) \<and>
           search_step graph goal (n, p, g) (pq_entries (open_pq u)) (closed_set u)
             (pq_entries (open_pq u')) (closed_set u') \<and>
           (pq_inv heuristic (open_pq u) \<longrightarrow> pq_inv heuristic (open_pq u'))"
proof -
  obtain f g n p open1 where pop: "heappop (open_pq u) = Inr ((f, g, n, p), open1)"
    using assms by (auto simp: astar_iteration_def split: sum.splits)
  have st: "set (open_pq u) = insert (f, g, n, p) (set open1)"
    using set_heappop[OF pop] .
  have img: "pq_entries (open_pq u) = insert (n, p, g) (pq_entries open1)"
    unfolding pq_entries_def st by simp
  have sub: "pq_entries (open_pq u) - {(n, p, g)} \<subseteq> pq_entries open1"
    "pq_entries open1 \<subseteq> pq_entries (open_pq u)" "(n, p, g) \<in> pq_entries (open_pq u)"
    unfolding img by blast+
  have inv1: "pq_inv heuristic (open_pq u) \<Longrightarrow> pq_inv heuristic open1"
    unfolding pq_inv_def using is_heap_heappop[OF _ pop] st by auto
  have g: "n \<noteq> goal"
    using assms pop by (auto simp: astar_iteration_def Let_def split: option.splits if_splits)
  show ?thesis
  proof (cases "n \<in> closed_set u")
    case True
    then have "open_pq u' = open1" "closed_set u' = closed_set u"
      using assms pop by (auto simp: astar_iteration_def Let_def split: option.splits if_splits)
    then show ?thesis
      using pop True g sub inv1 by (auto simp: search_step_def)
  next
    case False
    then obtain adj where adj: "map_of graph n = Some adj"
      using assms pop by (auto simp: astar_iteration_def Let_def split: option.splits if_splits)
    obtain added where push:
      "astar_push heuristic (insert n (closed_set u)) p g (sort adj) (open1, []) = Inr (open_pq u', added)"
      and c: "closed_set u' = insert n (closed_set u)"
      using assms pop False adj
      by (auto simp: astar_iteration_def Let_def split: option.splits if_splits sum.splits)
    let ?new = "map (\<lambda>(m, w). (g + w + the (heuristic m), g + w, m, p @ [m]))
                  (filter (\<lambda>(m, w). m \<notin> insert n (closed_set u)) (sort adj))"
    note r = astar_push_Inr[OF push]
    have ms: "mset (open_pq u') = mset open1 + mset ?new"
      using r by (rule conjunct1)
    have def: "\<forall>(m, w) \<in> set (sort adj). m \<notin> insert n (closed_set u) \<longrightarrow> heuristic m \<noteq> None"
      using r[THEN conjunct2, THEN conjunct2] by (rule conjunct1)
    have hp: "is_heap open1 \<longrightarrow> is_heap (open_pq u')"
      using r[THEN conjunct2, THEN conjunct2, THEN conjunct2] by (rule conjunct1)
    have "set_mset (mset (open_pq u')) = set_mset (mset open1 + mset ?new)"
      using ms by (rule arg_cong)
    then have e'2: "set (open_pq u') = set open1 \<union> set ?new"
      by simp
    have e': "pq_entries (open_pq u') = pq_entries open1 \<union> pq_entries ?new"
      unfolding pq_entries_def e'2 by (rule image_Un)
    have s: "successors (insert n (closed_set u)) p g (sort adj) =
             successors (insert n (closed_set u)) p g adj"
      by (auto simp: successors_def)
    have step: "search_step graph goal (n, p, g) (pq_entries (open_pq u)) (closed_set u)
             (pq_entries (open_pq u')) (closed_set u')"
      unfolding e' pq_entries_pushed s
      using False adj c g sub unfolding search_step_def by auto
    have "pq_inv heuristic (open_pq u')" if "pq_inv heuristic (open_pq u)"
    proof -
      have "pq_inv heuristic open1" using inv1 that .
      moreover have "\<forall>(f, g, n, p) \<in> set ?new. heuristic n = Some (f - g)"
        using def by auto
      ultimately show ?thesis
        using hp unfolding pq_inv_def e'2 by auto
    qed
    then show ?thesis using pop step by blast
  qed
qed



lemma astar_Return_open:
  assumes "astar_iteration graph goal heuristic u = Return fd u'"
  shows "\<exists>f open1. heappop (open_pq u) = Inr ((f, snd fd, goal, fst fd), open1)"
  using assms
  by (auto simp: astar_iteration_def Let_def split: if_splits prod.splits option.splits sum.splits)



lemma astar_Raise_open:
  assumes "astar_iteration graph goal heuristic u = Raise e" and "open_pq u \<noteq> []"
  shows "\<exists>f g n p open1. heappop (open_pq u) = Inr ((f, g, n, p), open1) \<and>
           (heuristic n = None \<or> map_of graph n = None \<or>
            (\<exists>adj. map_of graph n = Some adj \<and> (\<exists>(m, w) \<in> set adj. heuristic m = None)))"
proof -
  obtain f g n p open1 where pop: "heappop (open_pq u) = Inr ((f, g, n, p), open1)"
    using heappop_nonempty[OF assms(2)] by (metis prod_cases4)
  show ?thesis
  proof (cases "heuristic n = None \<or> map_of graph n = None")
    case True
    then show ?thesis using pop by blast
  next
    case False
    then obtain adj hn where adj: "map_of graph n = Some adj" "heuristic n = Some hn" by auto
    have "\<exists>(m, w) \<in> set adj. heuristic m = None"
    proof (rule ccontr)
      assume "\<not> (\<exists>(m, w) \<in> set adj. heuristic m = None)"
      then have "\<forall>(m, w) \<in> set (sort adj). m \<notin> insert n (closed_set u) \<longrightarrow> heuristic m \<noteq> None"
        by auto
      from astar_push_total[OF this]
      obtain r where "astar_push heuristic (insert n (closed_set u)) p g (sort adj) (open1, []) = Inr r"
        by blast
      then show False
        using assms(1) pop adj
        by (auto simp: astar_iteration_def Let_def split: if_splits prod.splits)
    qed
    then show ?thesis using pop adj by blast
  qed
qed

lemma bfs_count_Continue:
  "bfs_iteration graph goal u = Continue u' \<Longrightarrow> count_inv u \<Longrightarrow> count_inv u'"
  by (auto simp: bfs_iteration_def Let_def count_inv_def sorted_wrt_append
           split: if_splits prod.splits option.splits; blast)

lemma bfs_count_Return:
  "bfs_iteration graph goal u = Return fd u' \<Longrightarrow> count_inv u \<Longrightarrow> count_inv u'"
  by (auto simp: bfs_iteration_def Let_def count_inv_def sorted_wrt_append
           split: if_splits prod.splits option.splits; blast)

lemma bfs_trace_Continue:
  "bfs_iteration graph goal u = Continue u' \<Longrightarrow> trace_inv ''GOAL FOUND!'' (map fst (open_queue u)) u \<Longrightarrow>
   trace_inv ''GOAL FOUND!'' (map fst (open_queue u')) u'"
  by (auto simp: bfs_iteration_def Let_def trace_inv_def push_neighbors_eq
           split: if_splits prod.splits option.splits)

lemma bfs_trace_Return:
  "bfs_iteration graph goal u = Return fd u' \<Longrightarrow> trace_inv ''GOAL FOUND!'' (map fst (open_queue u)) u \<Longrightarrow>
   goal_trace ''GOAL FOUND!'' fd u'"
  by (auto simp: bfs_iteration_def Let_def trace_inv_def goal_trace_def butlast_append
           split: if_splits prod.splits option.splits)

lemma astar_push_none:
  assumes "astar_push h C p g adj (pq, []) = Inr (pq', [])"
  shows "pq' = pq"
proof -
  note r = astar_push_Inr[OF assms]
  have "[] = [] @ map (\<lambda>(m, w). (m, g + w + the (h m))) (filter (\<lambda>(m, w). m \<notin> C) adj)"
    using r[THEN conjunct2] by (rule conjunct1)
  then have "filter (\<lambda>(m, w). m \<notin> C) adj = []" by simp
  then show ?thesis
    using r[THEN conjunct2, THEN conjunct2, THEN conjunct2, THEN conjunct2] by blast
qed

lemma astar_count_Continue:
  "astar_iteration graph goal heuristic u = Continue u' \<Longrightarrow> count_inv u \<Longrightarrow> count_inv u'"
  by (auto simp: astar_iteration_def Let_def count_inv_def sorted_wrt_append
           split: if_splits prod.splits option.splits sum.splits; blast)

lemma astar_count_Return:
  "astar_iteration graph goal heuristic u = Return fd u' \<Longrightarrow> count_inv u \<Longrightarrow> count_inv u'"
  by (auto simp: astar_iteration_def Let_def count_inv_def sorted_wrt_append
           split: if_splits prod.splits option.splits sum.splits; blast)

lemma astar_trace_Continue:
  "astar_iteration graph goal heuristic u = Continue u' \<Longrightarrow>
   trace_inv ''OPTIMAL GOAL!'' (map (\<lambda>(f, g, n, p). (f, n)) (open_pq u)) u \<Longrightarrow>
   trace_inv ''OPTIMAL GOAL!'' (map (\<lambda>(f, g, n, p). (f, n)) (open_pq u')) u'"
  by (auto simp: astar_iteration_def Let_def trace_inv_def
           split: if_splits prod.splits option.splits sum.splits dest: astar_push_none)

lemma astar_trace_Return:
  "astar_iteration graph goal heuristic u = Return fd u' \<Longrightarrow>
   trace_inv ''OPTIMAL GOAL!'' (map (\<lambda>(f, g, n, p). (f, n)) (open_pq u)) u \<Longrightarrow>
   goal_trace ''OPTIMAL GOAL!'' fd u'"
  by (auto simp: astar_iteration_def Let_def trace_inv_def goal_trace_def butlast_append
           split: if_splits prod.splits option.splits sum.splits)

lemma count_inv_init:
  "count_inv (dfs_init start)" "count_inv (bfs_init start)" "count_inv (astar_init start h)"
  by (simp_all add: count_inv_def dfs_init_def bfs_init_def astar_init_def)

lemma trace_inv_init:
  "trace_inv ''GOAL FOUND!'' (map fst (open_list (dfs_init start))) (dfs_init start)"
  "trace_inv ''GOAL FOUND!'' (map fst (open_queue (bfs_init start))) (bfs_init start)"
  "trace_inv ''OPTIMAL GOAL!'' (map (\<lambda>(f, g, n, p). (f, n)) (open_pq (astar_init start h)))
     (astar_init start h)"
  by (simp_all add: trace_inv_def dfs_init_def bfs_init_def astar_init_def)

lemma goal_trace_once:
  assumes "goal_trace a fd v"
  shows "length (filter (\<lambda>t. tr_action t = a) (trace v)) = 1"
proof -
  have ne: "trace v \<noteq> []" and l: "tr_action (last (trace v)) = a"
    and b: "\<forall>r \<in> set (butlast (trace v)). tr_action r \<noteq> a"
    using assms by (simp_all add: goal_trace_def)
  have "filter (\<lambda>t. tr_action t = a) (butlast (trace v) @ [last (trace v)]) = [last (trace v)]"
    using l b by (simp add: filter_empty_conv)
  then show ?thesis using ne by simp
qed

lemma dfs_search_trace:
  assumes "dfs_search graph start goal = Inr (found, v)"
  shows "count_inv v"
    and "found = Some fd \<Longrightarrow> goal_trace ''GOAL FOUND!'' fd v"
    and "found = None \<Longrightarrow> trace v \<noteq> [] \<and> tr_open (last (trace v)) = []"
proof -
  let ?I = "\<lambda>u. count_inv u \<and> trace_inv ''GOAL FOUND!'' (map fst (open_list u)) u"
  have "\<exists>u. ?I u \<and> (found = None \<and> u = v \<and> open_list u = [] \<or>
           open_list u \<noteq> [] \<and> (\<exists>fd. found = Some fd \<and> dfs_iteration graph goal u = Return fd v))"
    using assms unfolding dfs_search_def
    by (rule dfs_loop_rule)
       (auto simp: count_inv_init trace_inv_init intro: dfs_count_Continue dfs_trace_Continue)
  then obtain u where u: "count_inv u" "trace_inv ''GOAL FOUND!'' (map fst (open_list u)) u"
    and c: "found = None \<and> u = v \<and> open_list u = [] \<or>
            (\<exists>fd. found = Some fd \<and> dfs_iteration graph goal u = Return fd v)"
    by blast
  from c show "count_inv v"
  proof
    assume "found = None \<and> u = v \<and> open_list u = []"
    then show ?thesis using u(1) by simp
  next
    assume "\<exists>fd. found = Some fd \<and> dfs_iteration graph goal u = Return fd v"
    then obtain fd' where "dfs_iteration graph goal u = Return fd' v" by blast
    then show ?thesis using u(1) by (rule dfs_count_Return)
  qed
  show "goal_trace ''GOAL FOUND!'' fd v" if "found = Some fd"
  proof -
    have "dfs_iteration graph goal u = Return fd v" using c that by auto
    then show ?thesis using u(2) by (rule dfs_trace_Return)
  qed
  show "found = None \<Longrightarrow> trace v \<noteq> [] \<and> tr_open (last (trace v)) = []"
    using u c by (auto simp: trace_inv_def)
qed

lemma bfs_search_trace:
  assumes "bfs_search graph start goal = Inr (found, v)"
  shows "count_inv v"
    and "found = Some fd \<Longrightarrow> goal_trace ''GOAL FOUND!'' fd v"
    and "found = None \<Longrightarrow> trace v \<noteq> [] \<and> tr_open (last (trace v)) = []"
proof -
  let ?I = "\<lambda>u. count_inv u \<and> trace_inv ''GOAL FOUND!'' (map fst (open_queue u)) u"
  have "\<exists>u. ?I u \<and> (found = None \<and> u = v \<and> open_queue u = [] \<or>
           open_queue u \<noteq> [] \<and> (\<exists>fd. found = Some fd \<and> bfs_iteration graph goal u = Return fd v))"
    using assms unfolding bfs_search_def
    by (rule bfs_loop_rule)
       (auto simp: count_inv_init trace_inv_init intro: bfs_count_Continue bfs_trace_Continue)
  then obtain u where u: "count_inv u" "trace_inv ''GOAL FOUND!'' (map fst (open_queue u)) u"
    and c: "found = None \<and> u = v \<and> open_queue u = [] \<or>
            (\<exists>fd. found = Some fd \<and> bfs_iteration graph goal u = Return fd v)"
    by blast
  from c show "count_inv v"
  proof
    assume "found = None \<and> u = v \<and> open_queue u = []"
    then show ?thesis using u(1) by simp
  next
    assume "\<exists>fd. found = Some fd \<and> bfs_iteration graph goal u = Return fd v"
    then obtain fd' where "bfs_iteration graph goal u = Return fd' v" by blast
    then show ?thesis using u(1) by (rule bfs_count_Return)
  qed
  show "goal_trace ''GOAL FOUND!'' fd v" if "found = Some fd"
  proof -
    have "bfs_iteration graph goal u = Return fd v" using c that by auto
    then show ?thesis using u(2) by (rule bfs_trace_Return)
  qed
  show "found = None \<Longrightarrow> trace v \<noteq> [] \<and> tr_open (last (trace v)) = []"
    using u c by (auto simp: trace_inv_def)
qed

lemma astar_search_trace:
  assumes "astar_search graph start goal heuristic = Inr (found, v)"
  shows "count_inv v"
    and "found = Some fd \<Longrightarrow> goal_trace ''OPTIMAL GOAL!'' fd v"
    and "found = None \<Longrightarrow> trace v \<noteq> [] \<and> tr_open (last (trace v)) = []"
proof -
  obtain h where h: "heuristic start = Some h"
    and l: "astar_loop graph goal heuristic (astar_init start h) = Inr (found, v)"
    using assms by (auto simp: astar_search_def split: option.splits)
  let ?I = "\<lambda>u. count_inv u \<and> trace_inv ''OPTIMAL GOAL!'' (map (\<lambda>(f, g, n, p). (f, n)) (open_pq u)) u"
  have "\<exists>u. ?I u \<and> (found = None \<and> u = v \<and> open_pq u = [] \<or>
           open_pq u \<noteq> [] \<and> (\<exists>fd. found = Some fd \<and> astar_iteration graph goal heuristic u = Return fd v))"
    using l
    by (rule astar_loop_rule)
       (auto simp: count_inv_init trace_inv_init intro: astar_count_Continue astar_trace_Continue)
  then obtain u where u: "count_inv u" "trace_inv ''OPTIMAL GOAL!'' (map (\<lambda>(f, g, n, p). (f, n)) (open_pq u)) u"
    and c: "found = None \<and> u = v \<and> open_pq u = [] \<or>
            (\<exists>fd. found = Some fd \<and> astar_iteration graph goal heuristic u = Return fd v)"
    by blast
  from c show "count_inv v"
  proof
    assume "found = None \<and> u = v \<and> open_pq u = []"
    then show ?thesis using u(1) by simp
  next
    assume "\<exists>fd. found = Some fd \<and> astar_iteration graph goal heuristic u = Return fd v"
    then obtain fd' where "astar_iteration graph goal heuristic u = Return fd' v" by blast
    then show ?thesis using u(1) by (rule astar_count_Return)
  qed
  show "goal_trace ''OPTIMAL GOAL!'' fd v" if "found = Some fd"
  proof -
    have "astar_iteration graph goal heuristic u = Return fd v" using c that by auto
    then show ?thesis using u(2) by (rule astar_trace_Return)
  qed
  show "found = None \<Longrightarrow> trace v \<noteq> [] \<and> tr_open (last (trace v)) = []"
    using u c by (auto simp: trace_inv_def)
qed

lemma heappop_single [simp]: "heappop [x] = Inr (x, [])"
  by (simp add: heappop_def)

lemma heappush_Nil [simp]: "heappush [] x = [x]"
  by (simp add: heappush_def siftdown_def siftdown_loop.simps)

lemma dfs_example:
  "\<exists>r. dfs_collect_trace (0, 1) [(''A'', [(''B'', 3)]), (''B'', [(''A'', 3)])] ''A'' ''B'' = Inr r \<and>
       r_path r = Some [''A'', ''B''] \<and> r_cost r = Some 3"
  by (simp add: dfs_collect_trace_def dfs_search_def dfs_loop.simps
        dfs_init_def dfs_iteration_def make_result_def Let_def)

lemma bfs_example:
  "\<exists>r. bfs_collect_trace (0, 1) [(''A'', [(''B'', 3)]), (''B'', [(''A'', 3)])] ''A'' ''B'' = Inr r \<and>
       r_path r = Some [''A'', ''B''] \<and> r_cost r = Some 3"
  by (simp add: bfs_collect_trace_def bfs_search_def bfs_loop.simps
        bfs_init_def bfs_iteration_def make_result_def Let_def)

lemma astar_example:
  "\<exists>r. astar_collect_trace (0, 1) [(''A'', [(''B'', 3)]), (''B'', [(''A'', 3)])] ''A'' ''B''
          [''A'' \<mapsto> 2, ''B'' \<mapsto> 0] = Inr r \<and>
       r_path r = Some [''A'', ''B''] \<and> r_cost r = Some 3"
  by (simp add: astar_collect_trace_def astar_search_def astar_loop.simps
        astar_init_def astar_iteration_def make_result_def Let_def)

subsection \<open>The closed set\<close>

lemma collect_Inr:
  "dfs_collect_trace clock graph start goal = Inr r \<Longrightarrow>
     \<exists>found v. dfs_search graph start goal = Inr (found, v) \<and> r = make_result clock found v"
  "bfs_collect_trace clock graph' start' goal' = Inr r \<Longrightarrow>
     \<exists>found v. bfs_search graph' start' goal' = Inr (found, v) \<and> r = make_result clock found v"
  "astar_collect_trace clock graph' start' goal' heuristic = Inr r' \<Longrightarrow>
     \<exists>found v. astar_search graph' start' goal' heuristic = Inr (found, v) \<and> r' = make_result clock found v"
  by (auto simp: dfs_collect_trace_def bfs_collect_trace_def astar_collect_trace_def split: sum.splits)

lemma make_result_simps [simp]:
  "r_path (make_result clock found v) = map_option fst found"
  "r_cost (make_result clock found v) = map_option snd found"
  "r_nodes_expanded (make_result clock found v) = nodes_expanded v"
  "r_step (make_result clock found v) = step v"
  "r_trace (make_result clock found v) = trace v"
  by (simp_all add: make_result_def)

lemma count_inv_result:
  assumes "count_inv v"
  shows "finite (closed_set v) \<and> r_nodes_expanded (make_result clock found v) = card (closed_set v) \<and>
         sorted_wrt (\<subseteq>) (map tr_closed (r_trace (make_result clock found v))) \<and>
         (\<forall>t \<in> set (r_trace (make_result clock found v)). tr_closed t \<subseteq> closed_set v)"
  using assms by (simp add: count_inv_def)

lemma goal_trace_result:
  assumes "goal_trace a fd v" and "r = make_result clock (Some fd) v"
  shows "r_trace r \<noteq> [] \<and> tr_action (last (r_trace r)) = a \<and>
         length (filter (\<lambda>t. tr_action t = a) (r_trace r)) = 1 \<and>
         r_path r = Some (tr_path (last (r_trace r))) \<and>
         r_cost r = Some (tr_cost (last (r_trace r)))"
  using assms goal_trace_once[OF assms(1)] by (simp add: goal_trace_def)

subsection \<open>The goal record of the trace\<close>

lemma found_of_path:
  "r = make_result clock found v \<Longrightarrow> r_path r \<noteq> None \<Longrightarrow> \<exists>fd. found = Some fd"
  by (cases found) simp_all

subsection \<open>Returned paths\<close>

lemma entry_inv_init:
  "\<forall>x \<in> set (open_list (dfs_init start)). entry_inv graph start x"
  "\<forall>x \<in> set (open_queue (bfs_init start)). entry_inv graph start x"
  "\<forall>x \<in> pq_entries (open_pq (astar_init start h)). entry_inv graph start x"
  by (simp_all add: dfs_init_def bfs_init_def astar_init_def pq_entries_def entry_inv_start)

lemma astar_Return_entry:
  assumes "astar_iteration graph goal heuristic u = Return fd u'"
  shows "(goal, fd) \<in> pq_entries (open_pq u)"
proof -
  obtain f open1 where "heappop (open_pq u) = Inr ((f, snd fd, goal, fst fd), open1)"
    using astar_Return_open[OF assms] by blast
  then have "(f, snd fd, goal, fst fd) \<in> set (open_pq u)"
    using set_heappop by fastforce
  then have "(\<lambda>(f, g, n, p). (n, p, g)) (f, snd fd, goal, fst fd) \<in> pq_entries (open_pq u)"
    unfolding pq_entries_def by (rule imageI)
  then show ?thesis by simp
qed

lemma dfs_search_entry:
  assumes "dfs_search graph start goal = Inr (Some fd, v)" and "graph_dict graph"
  shows "entry_inv graph start (goal, fd)"
proof -
  let ?I = "\<lambda>u. \<forall>x \<in> set (open_list u). entry_inv graph start x"
  have "\<exists>u. ?I u \<and> (Some fd = None \<and> u = v \<and> open_list u = [] \<or>
           open_list u \<noteq> [] \<and> (\<exists>fd'. Some fd = Some fd' \<and> dfs_iteration graph goal u = Return fd' v))"
    using assms(1) unfolding dfs_search_def
  proof (rule dfs_loop_rule)
    show "?I (dfs_init start)" by (rule entry_inv_init)
  next
    fix u u' assume "?I u" "dfs_iteration graph goal u = Continue u'"
    then show "?I u'"
      using dfs_Continue_step[of graph goal u u'] step_entries[OF _ assms(2)] by blast
  qed
  then obtain u where u: "?I u" "open_list u \<noteq> []" "dfs_iteration graph goal u = Return fd v"
    by auto
  have "(goal, fd) \<in> set (open_list u)"
    using dfs_Return_open[OF u(3)] last_in_set[OF u(2)] by simp
  then show ?thesis using u(1) by blast
qed

lemma bfs_search_entry:
  assumes "bfs_search graph start goal = Inr (Some fd, v)" and "graph_dict graph"
  shows "entry_inv graph start (goal, fd)"
proof -
  let ?I = "\<lambda>u. \<forall>x \<in> set (open_queue u). entry_inv graph start x"
  have "\<exists>u. ?I u \<and> (Some fd = None \<and> u = v \<and> open_queue u = [] \<or>
           open_queue u \<noteq> [] \<and> (\<exists>fd'. Some fd = Some fd' \<and> bfs_iteration graph goal u = Return fd' v))"
    using assms(1) unfolding bfs_search_def
  proof (rule bfs_loop_rule)
    show "?I (bfs_init start)" by (rule entry_inv_init)
  next
    fix u u' assume "?I u" "bfs_iteration graph goal u = Continue u'"
    then show "?I u'"
      using bfs_Continue_step[of graph goal u u'] step_entries[OF _ assms(2)] by blast
  qed
  then obtain u where u: "?I u" "open_queue u \<noteq> []" "bfs_iteration graph goal u = Return fd v"
    by auto
  have "(goal, fd) \<in> set (open_queue u)"
    using bfs_Return_open[OF u(3)] hd_in_set[OF u(2)] by simp
  then show ?thesis using u(1) by blast
qed

lemma astar_search_entry:
  assumes "astar_search graph start goal heuristic = Inr (Some fd, v)" and "graph_dict graph"
  shows "entry_inv graph start (goal, fd)"
proof -
  obtain h where l: "astar_loop graph goal heuristic (astar_init start h) = Inr (Some fd, v)"
    using assms(1) by (auto simp: astar_search_def split: option.splits)
  let ?I = "\<lambda>u. \<forall>x \<in> pq_entries (open_pq u). entry_inv graph start x"
  have "\<exists>u. ?I u \<and> (Some fd = None \<and> u = v \<and> open_pq u = [] \<or>
           open_pq u \<noteq> [] \<and> (\<exists>fd'. Some fd = Some fd' \<and>
             astar_iteration graph goal heuristic u = Return fd' v))"
    using l
  proof (rule astar_loop_rule)
    show "?I (astar_init start h)" by (rule entry_inv_init)
  next
    fix u u' assume "?I u" "astar_iteration graph goal heuristic u = Continue u'"
    then show "?I u'"
      using astar_Continue_step[of graph goal heuristic u u'] step_entries[OF _ assms(2)] by blast
  qed
  then obtain u where u: "?I u" "astar_iteration graph goal heuristic u = Return fd v"
    by auto
  show ?thesis using u(1) astar_Return_entry[OF u(2)] by blast
qed

lemma entry_inv_result:
  assumes "entry_inv graph start (goal, fd)" and "r = make_result clock (Some fd) v"
    and "r_path r = Some p"
  shows "p \<noteq> [] \<and> hd p = start \<and> last p = goal \<and>
         (\<exists>c. path_cost graph p = Some c \<and> r_cost r = Some c)"
  using assms by (cases fd) (auto simp: entry_inv_def path_from_to_def)

subsection \<open>Returning a Result\<close>

lemma keys_init:
  "start \<in> fst ` set graph \<Longrightarrow> \<forall>x \<in> set (open_list (dfs_init start)). fst x \<in> fst ` set graph"
  "start \<in> fst ` set graph \<Longrightarrow> \<forall>x \<in> set (open_queue (bfs_init start)). fst x \<in> fst ` set graph"
  "start \<in> fst ` set graph \<Longrightarrow> \<forall>x \<in> pq_entries (open_pq (astar_init start h)). fst x \<in> fst ` set graph"
  by (simp_all add: dfs_init_def bfs_init_def astar_init_def pq_entries_def)

lemma key_lookup: "n \<in> fst ` set graph \<Longrightarrow> map_of graph n \<noteq> None"
  by (simp add: map_of_eq_None_iff)

lemma covers_key: "covers heuristic graph \<Longrightarrow> n \<in> fst ` set graph \<Longrightarrow> heuristic n \<noteq> None"
  by (auto simp: covers_def list_all_iff)

lemma wf_neighbour_key:
  assumes "wf_graph graph" and "map_of graph n = Some adj" and "(m, w) \<in> set adj"
  shows "m \<in> fst ` set graph"
proof -
  have "(n, adj) \<in> set graph" using assms(2) by (rule map_of_SomeD)
  then show ?thesis
    using assms(1,3) by (auto simp: wf_graph_def list_all_iff)
qed

lemma dfs_search_returns:
  fixes graph :: "('a) graph"
  assumes "wf_graph graph" and "start \<in> fst ` set graph"
  shows "\<exists>r. dfs_search graph start goal = Inr r"
  unfolding dfs_search_def
proof (rule dfs_loop_returns[where I = "\<lambda>u. \<forall>x \<in> set (open_list u). fst x \<in> fst ` set graph"])
  show "\<forall>x \<in> set (open_list (dfs_init start)). fst x \<in> fst ` set graph"
    using assms(2) by (rule keys_init)
next
  fix u u' :: "'a dfs_vars" assume i: "\<forall>x \<in> set (open_list u). fst x \<in> fst ` set graph"
    and c: "dfs_iteration graph goal u = Continue u'"
  show "\<forall>x \<in> set (open_list u'). fst x \<in> fst ` set graph"
    using dfs_Continue_step[OF c, THEN conjunct2] assms(1) i by (rule step_keys)
next
  fix u :: "'a dfs_vars" and e assume k: "\<forall>x \<in> set (open_list u). fst x \<in> fst ` set graph" and ne: "open_list u \<noteq> []"
  show "dfs_iteration graph goal u \<noteq> Raise e"
  proof
    assume "dfs_iteration graph goal u = Raise e"
    from dfs_Raise_open[OF this] have "map_of graph (fst (last (open_list u))) = None"
      using ne by simp
    moreover have "fst (last (open_list u)) \<in> fst ` set graph"
      using k last_in_set[OF ne] by simp
    ultimately show False
      using key_lookup by fastforce
  qed
qed

lemma bfs_search_returns:
  fixes graph :: "('a::linorder) graph"
  assumes "wf_graph graph" and "start \<in> fst ` set graph"
  shows "\<exists>r. bfs_search graph start goal = Inr r"
  unfolding bfs_search_def
proof (rule bfs_loop_returns[where I = "\<lambda>u. \<forall>x \<in> set (open_queue u). fst x \<in> fst ` set graph"])
  show "\<forall>x \<in> set (open_queue (bfs_init start)). fst x \<in> fst ` set graph"
    using assms(2) by (rule keys_init)
next
  fix u u' :: "'a bfs_vars" assume i: "\<forall>x \<in> set (open_queue u). fst x \<in> fst ` set graph"
    and c: "bfs_iteration graph goal u = Continue u'"
  show "\<forall>x \<in> set (open_queue u'). fst x \<in> fst ` set graph"
    using bfs_Continue_step[OF c, THEN conjunct2] assms(1) i by (rule step_keys)
next
  fix u :: "'a bfs_vars" and e assume k: "\<forall>x \<in> set (open_queue u). fst x \<in> fst ` set graph" and ne: "open_queue u \<noteq> []"
  show "bfs_iteration graph goal u \<noteq> Raise e"
  proof
    assume "bfs_iteration graph goal u = Raise e"
    from bfs_Raise_open[OF this] have "map_of graph (fst (hd (open_queue u))) = None"
      using ne by simp
    moreover have "fst (hd (open_queue u)) \<in> fst ` set graph"
      using k hd_in_set[OF ne] by simp
    ultimately show False
      using key_lookup by fastforce
  qed
qed

lemma astar_no_raise:
  assumes "wf_graph graph" and "covers heuristic graph"
    and k: "\<forall>x \<in> pq_entries (open_pq u). fst x \<in> fst ` set graph" and ne: "open_pq u \<noteq> []"
  shows "astar_iteration graph goal heuristic u \<noteq> Raise e"
proof
  assume "astar_iteration graph goal heuristic u = Raise e"
  from astar_Raise_open[OF this ne] obtain f g n p open1 where
    pop: "heappop (open_pq u) = Inr ((f, g, n, p), open1)" and
    c: "heuristic n = None \<or> map_of graph n = None \<or>
        (\<exists>adj. map_of graph n = Some adj \<and> (\<exists>(m, w) \<in> set adj. heuristic m = None))"
    by blast
  have "(f, g, n, p) \<in> set (open_pq u)" using set_heappop[OF pop] by simp
  then have "(\<lambda>(f, g, n, p). (n, p, g)) (f, g, n, p) \<in> pq_entries (open_pq u)"
    unfolding pq_entries_def by (rule imageI)
  then have n: "n \<in> fst ` set graph" using k by force
  from c show False
  proof (elim disjE exE conjE)
    assume "heuristic n = None"
    then show False using covers_key[OF assms(2) n] by simp
  next
    assume "map_of graph n = None"
    then show False using key_lookup[OF n] by simp
  next
    fix adj assume adj: "map_of graph n = Some adj" and "\<exists>(m, w) \<in> set adj. heuristic m = None"
    then obtain m w where mw: "(m, w) \<in> set adj" "heuristic m = None" by auto
    show False
      using covers_key[OF assms(2) wf_neighbour_key[OF assms(1) adj mw(1)]] mw(2) by simp
  qed
qed

lemma astar_search_returns:
  fixes graph :: "('a::linorder) graph"
  assumes "wf_graph graph" and "start \<in> fst ` set graph" and "covers heuristic graph"
  shows "\<exists>r. astar_search graph start goal heuristic = Inr r"
proof -
  obtain h where h: "heuristic start = Some h"
    using covers_key[OF assms(3,2)] by auto
  have "\<exists>r. astar_loop graph goal heuristic (astar_init start h) = Inr r"
  proof (rule astar_loop_returns[where I = "\<lambda>u. \<forall>x \<in> pq_entries (open_pq u). fst x \<in> fst ` set graph"])
    show "\<forall>x \<in> pq_entries (open_pq (astar_init start h)). fst x \<in> fst ` set graph"
      using assms(2) by (rule keys_init)
  next
    fix u u' :: "'a astar_vars" assume i: "\<forall>x \<in> pq_entries (open_pq u). fst x \<in> fst ` set graph"
      and c: "astar_iteration graph goal heuristic u = Continue u'"
    from astar_Continue_step[OF c] obtain f g n p open1 where
      "search_step graph goal (n, p, g) (pq_entries (open_pq u)) (closed_set u)
             (pq_entries (open_pq u')) (closed_set u')"
      by blast
    then show "\<forall>x \<in> pq_entries (open_pq u'). fst x \<in> fst ` set graph"
      using assms(1) i by (rule step_keys)
  next
    fix u :: "'a astar_vars" and e assume "\<forall>x \<in> pq_entries (open_pq u). fst x \<in> fst ` set graph" "open_pq u \<noteq> []"
    then show "astar_iteration graph goal heuristic u \<noteq> Raise e"
      by (rule astar_no_raise[OF assms(1,3)])
  qed
  then show ?thesis by (simp add: astar_search_def h)
qed

subsection \<open>Unreachable goal\<close>

lemma wf_graph_dict: "wf_graph graph \<Longrightarrow> graph_dict graph"
  by (simp add: wf_graph_def)

lemma entry_reachable: "entry_inv graph start (goal, fd) \<Longrightarrow> reachable graph start goal"
  by (cases fd) (auto simp: entry_inv_def reachable_def)

lemma none_result:
  assumes "count_inv v" and "trace v \<noteq> [] \<and> tr_open (last (trace v)) = []"
  shows "r_path (make_result clock None v) = None \<and> r_cost (make_result clock None v) = None \<and>
         r_nodes_expanded (make_result clock None v) = card (closed_set v) \<and>
         r_trace (make_result clock None v) \<noteq> [] \<and>
         tr_open (last (r_trace (make_result clock None v))) = []"
  using assms by (simp add: count_inv_def)

lemma dfs_unreachable:
  assumes "wf_graph graph" and "start \<in> fst ` set graph" and "\<not> reachable graph start goal"
  shows "\<exists>r v. dfs_collect_trace clock graph start goal = Inr r \<and>
           dfs_search graph start goal = Inr (None, v) \<and>
           r_path r = None \<and> r_cost r = None \<and> r_nodes_expanded r = card (closed_set v) \<and>
           r_trace r \<noteq> [] \<and> tr_open (last (r_trace r)) = []"
proof -
  obtain found v where s: "dfs_search graph start goal = Inr (found, v)"
    using dfs_search_returns[OF assms(1,2)] by fastforce
  have "found = None"
  proof (cases found)
    case (Some fd)
    then show ?thesis
      using entry_reachable[OF dfs_search_entry[OF s[unfolded Some] wf_graph_dict[OF assms(1)]]] assms(3)
      by simp
  qed simp
  then have s': "dfs_search graph start goal = Inr (None, v)" using s by simp
  have "dfs_collect_trace clock graph start goal = Inr (make_result clock None v)"
    by (simp add: dfs_collect_trace_def s')
  then show ?thesis
    using s' none_result[OF dfs_search_trace(1)[OF s'] dfs_search_trace(3)[OF s' refl], of clock]
    by blast
qed

lemma bfs_unreachable:
  assumes "wf_graph graph" and "start \<in> fst ` set graph" and "\<not> reachable graph start goal"
  shows "\<exists>r v. bfs_collect_trace clock graph start goal = Inr r \<and>
           bfs_search graph start goal = Inr (None, v) \<and>
           r_path r = None \<and> r_cost r = None \<and> r_nodes_expanded r = card (closed_set v) \<and>
           r_trace r \<noteq> [] \<and> tr_open (last (r_trace r)) = []"
proof -
  obtain found v where s: "bfs_search graph start goal = Inr (found, v)"
    using bfs_search_returns[OF assms(1,2)] by fastforce
  have "found = None"
  proof (cases found)
    case (Some fd)
    then show ?thesis
      using entry_reachable[OF bfs_search_entry[OF s[unfolded Some] wf_graph_dict[OF assms(1)]]] assms(3)
      by simp
  qed simp
  then have s': "bfs_search graph start goal = Inr (None, v)" using s by simp
  have "bfs_collect_trace clock graph start goal = Inr (make_result clock None v)"
    by (simp add: bfs_collect_trace_def s')
  then show ?thesis
    using s' none_result[OF bfs_search_trace(1)[OF s'] bfs_search_trace(3)[OF s' refl], of clock]
    by blast
qed

lemma astar_unreachable:
  assumes "wf_graph graph" and "start \<in> fst ` set graph" and "covers heuristic graph"
    and "\<not> reachable graph start goal"
  shows "\<exists>r v. astar_collect_trace clock graph start goal heuristic = Inr r \<and>
           astar_search graph start goal heuristic = Inr (None, v) \<and>
           r_path r = None \<and> r_cost r = None \<and> r_nodes_expanded r = card (closed_set v) \<and>
           r_trace r \<noteq> [] \<and> tr_open (last (r_trace r)) = []"
proof -
  obtain found v where s: "astar_search graph start goal heuristic = Inr (found, v)"
    using astar_search_returns[OF assms(1,2,3)] by fastforce
  have "found = None"
  proof (cases found)
    case (Some fd)
    then show ?thesis
      using entry_reachable[OF astar_search_entry[OF s[unfolded Some] wf_graph_dict[OF assms(1)]]] assms(4)
      by simp
  qed simp
  then have s': "astar_search graph start goal heuristic = Inr (None, v)" using s by simp
  have "astar_collect_trace clock graph start goal heuristic = Inr (make_result clock None v)"
    by (simp add: astar_collect_trace_def s')
  then show ?thesis
    using s' none_result[OF astar_search_trace(1)[OF s'] astar_search_trace(3)[OF s' refl], of clock]
    by blast
qed

lemma path_stays:
  assumes "\<forall>n \<in> S. \<forall>adj. map_of graph n = Some adj \<longrightarrow> fst ` set adj \<subseteq> S"
  shows "path_cost graph p \<noteq> None \<Longrightarrow> hd p \<in> S \<Longrightarrow> set p \<subseteq> S"
proof (induction p)
  case Nil
  then show ?case by simp
next
  case (Cons n rest)
  show ?case
  proof (cases rest)
    case Nil
    then show ?thesis using Cons.prems by simp
  next
    case (Cons m r)
    from Cons.prems(1) obtain w where w: "edge_weight graph n m = Some w"
      and rest: "path_cost graph (m # r) \<noteq> None"
      unfolding Cons by (auto split: option.splits)
    from w obtain adj where adj: "map_of graph n = Some adj" "map_of adj m = Some w"
      by (auto simp: edge_weight_def split: option.splits)
    have "(m, w) \<in> set adj" using adj(2) by (rule map_of_SomeD)
    then have "m \<in> fst ` set adj" by force
    moreover have "n \<in> S" using Cons.prems(2) by simp
    ultimately have "m \<in> S" using assms adj(1) by blast
    then have "set rest \<subseteq> S" using Cons.IH rest unfolding Cons by simp
    then show ?thesis using \<open>n \<in> S\<close> by simp
  qed
qed

lemma not_reachable:
  assumes "\<forall>n \<in> S. \<forall>adj. map_of graph n = Some adj \<longrightarrow> fst ` set adj \<subseteq> S"
    and "start \<in> S" and "goal \<notin> S"
  shows "\<not> reachable graph start goal"
proof
  assume "reachable graph start goal"
  then obtain p where p: "p \<noteq> []" "hd p = start" "last p = goal" "path_cost graph p \<noteq> None"
    by (auto simp: reachable_def path_from_to_def)
  have "set p \<subseteq> S" using path_stays[OF assms(1) p(4)] p(2) assms(2) by simp
  then show False using last_in_set[OF p(1)] p(3) assms(3) by auto
qed

subsection \<open>The first open node of a path\<close>

text \<open>
  The invariant behind both optimality results. \<open>val\<close> measures a frontier entry and
  \<open>mu\<close> a path (hops for BFS, cost for A*). If start is not closed, the frontier has
  an entry for it no worse than the one-node path; and for every path from start to a
  closed node \<open>u\<close> and every edge from \<open>u\<close> to a node \<open>m\<close> that is not closed, the
  frontier has an entry for \<open>m\<close> no worse than that path extended by \<open>m\<close>.
\<close>

definition opt_inv :: "'a graph \<Rightarrow> 'a \<Rightarrow> ('a \<times> 'a list \<times> int \<Rightarrow> int) \<Rightarrow> ('a list \<Rightarrow> int) \<Rightarrow>
    ('a \<times> 'a list \<times> int) set \<Rightarrow> 'a set \<Rightarrow> bool" where
  "opt_inv graph start val mu E C =
     ((start \<notin> C \<longrightarrow> (\<exists>e \<in> E. fst e = start \<and> val e \<le> mu [start])) \<and>
      (\<forall>a u m. path_from_to graph start u a \<and> u \<in> C \<and> edge_weight graph u m \<noteq> None \<and> m \<notin> C \<longrightarrow>
         (\<exists>e \<in> E. fst e = m \<and> val e \<le> mu (a @ [m]))))"

lemma path_cost_append:
  "path_cost graph (a @ x # b) =
     (case path_cost graph (a @ [x]) of
        None \<Rightarrow> None
      | Some c1 \<Rightarrow> (case path_cost graph (x # b) of None \<Rightarrow> None | Some c2 \<Rightarrow> Some (c1 + c2)))"
proof (induction a)
  case Nil
  then show ?case by (simp split: option.splits)
next
  case (Cons n a)
  then show ?case
    by (cases a) (auto split: option.splits)
qed

lemma path_prefix:
  assumes "path_cost graph (a @ x # b) \<noteq> None" and "a \<noteq> []"
  shows "path_cost graph a \<noteq> None" and "edge_weight graph (last a) x \<noteq> None"
proof -
  have "path_cost graph (a @ [x]) \<noteq> None"
    using assms(1) by (subst (asm) path_cost_append) (auto split: option.splits)
  then show "path_cost graph a \<noteq> None" and "edge_weight graph (last a) x \<noteq> None"
    using assms(2) by (auto simp: path_cost_snoc split: option.splits)
qed

lemma first_unclosed:
  assumes "opt_inv graph start val mu E C" and "path_from_to graph start t q" and "t \<notin> C"
  shows "\<exists>a x b e. q = a @ x # b \<and> x \<notin> C \<and> e \<in> E \<and> fst e = x \<and> val e \<le> mu (a @ [x])"
proof -
  have q: "q \<noteq> []" "hd q = start" "last q = t" "path_cost graph q \<noteq> None"
    using assms(2) by (simp_all add: path_from_to_def)
  define a where "a = takeWhile (\<lambda>y. y \<in> C) q"
  define r where "r = dropWhile (\<lambda>y. y \<in> C) q"
  have split: "q = a @ r" by (simp add: a_def r_def)
  have "r \<noteq> []"
  proof
    assume "r = []"
    then have "\<forall>y \<in> set q. y \<in> C" by (simp add: r_def dropWhile_eq_Nil_conv)
    then show False using last_in_set[OF q(1)] q(3) assms(3) by simp
  qed
  then obtain x b where r: "r = x # b" by (cases r) auto
  have x: "x \<notin> C"
    using hd_dropWhile[of "\<lambda>y. y \<in> C" q] \<open>r \<noteq> []\<close> r by (simp add: r_def)
  show ?thesis
  proof (cases "a = []")
    case True
    then have "x = start" using split r q(2) by simp
    then obtain e where e: "e \<in> E" "fst e = x" "val e \<le> mu ([] @ [x])"
      using assms(1) x by (auto simp: opt_inv_def)
    have "q = [] @ x # b" using split r True by simp
    then show ?thesis using x e by blast
  next
    case False
    have u: "last a \<in> C"
      using last_in_set[OF False] set_takeWhileD[of "last a" "\<lambda>y. y \<in> C" q] by (simp add: a_def)
    have valid: "path_cost graph a \<noteq> None" "edge_weight graph (last a) x \<noteq> None"
      using path_prefix[of graph a x b] q(4) False split r by simp_all
    have "hd a = start" using False split q(2) by simp
    then have "path_from_to graph start (last a) a"
      using False valid(1) by (simp add: path_from_to_def)
    then obtain e where "e \<in> E" "fst e = x" "val e \<le> mu (a @ [x])"
      using assms(1) u valid(2) x unfolding opt_inv_def by blast
    then show ?thesis using split r x by blast
  qed
qed

lemma opt_inv_step:
  assumes step: "search_step graph goal (n, p, c) E C E' C'"
    and inv: "opt_inv graph start val mu E C"
    and new: "\<And>a m w. n \<notin> C \<Longrightarrow> path_from_to graph start n a \<Longrightarrow> edge_weight graph n m = Some w \<Longrightarrow>
                val (m, p @ [m], c + w) \<le> mu (a @ [m])"
  shows "opt_inv graph start val mu E' C'"
  unfolding opt_inv_def
proof (intro conjI impI allI)
  assume s: "start \<notin> C'"
  have sub: "C \<subseteq> C'" using step by (auto simp: search_step_def split: if_splits)
  then have "start \<notin> C" using s by blast
  then obtain e where e: "e \<in> E" "fst e = start" "val e \<le> mu [start]"
    using inv by (auto simp: opt_inv_def)
  have "fst e \<noteq> n"
    using step s e(2) by (auto simp: search_step_def split: if_splits)
  then have "e \<noteq> (n, p, c)" by auto
  then have "e \<in> E'" using step e(1) by (auto simp: search_step_def split: if_splits)
  then show "\<exists>e \<in> E'. fst e = start \<and> val e \<le> mu [start]" using e by blast
next
  fix a u m
  assume h: "path_from_to graph start u a \<and> u \<in> C' \<and> edge_weight graph u m \<noteq> None \<and> m \<notin> C'"
  have sub: "C \<subseteq> C'" using step by (auto simp: search_step_def split: if_splits)
  then have m: "m \<notin> C" using h by blast
  show "\<exists>e \<in> E'. fst e = m \<and> val e \<le> mu (a @ [m])"
  proof (cases "u \<in> C")
    case True
    then obtain e where e: "e \<in> E" "fst e = m" "val e \<le> mu (a @ [m])"
      using inv h m unfolding opt_inv_def by blast
    have "fst e \<noteq> n"
      using step h m e(2) by (auto simp: search_step_def split: if_splits)
    then have "e \<noteq> (n, p, c)" by auto
    then have "e \<in> E'" using step e(1) by (auto simp: search_step_def split: if_splits)
    then show ?thesis using e by blast
  next
    case False
    then have n: "n \<notin> C" "u = n" "C' = insert n C"
      using step h by (auto simp: search_step_def split: if_splits)
    obtain adj where adj: "map_of graph n = Some adj" "successors C' p c adj \<subseteq> E'"
      using step n(1) by (auto simp: search_step_def)
    obtain w where w: "edge_weight graph n m = Some w" using h n(2) by auto
    then have "map_of adj m = Some w" using adj(1) by (simp add: edge_weight_def)
    then have "(m, w) \<in> set adj" by (rule map_of_SomeD)
    then have "(m, p @ [m], c + w) \<in> successors C' p c adj"
      using h unfolding successors_def by force
    then have "(m, p @ [m], c + w) \<in> E'" using adj(2) by blast
    moreover have "val (m, p @ [m], c + w) \<le> mu (a @ [m])"
      using new[OF n(1) _ w] h n(2) by simp
    ultimately show ?thesis by force
  qed
qed

subsection \<open>Breadth-first search finds a path with the fewest edges\<close>

text \<open>
  The queue holds entries in order of the length of their paths, and no path in it is
  more than one node longer than the path at its head.
\<close>

definition hops :: "'a \<times> 'a list \<times> int \<Rightarrow> int" where
  "hops e = int (length (fst (snd e)))"

definition bfs_order :: "('a \<times> 'a list \<times> int) list \<Rightarrow> bool" where
  "bfs_order q = (sorted (map hops q) \<and> (\<forall>e \<in> set q. hops e \<le> hops (hd q) + 1))"

lemma bfs_order_hd: "bfs_order q \<Longrightarrow> e \<in> set q \<Longrightarrow> hops (hd q) \<le> hops e"
  by (cases q) (auto simp: bfs_order_def)

lemma bfs_order_step:
  assumes "bfs_order q" and "q \<noteq> []" and "\<forall>e \<in> set new. hops e = hops (hd q) + 1"
  shows "bfs_order (tl q @ new)"
proof -
  obtain x t where q: "q = x # t" using assms(2) by (cases q) auto
  have lo: "\<forall>y \<in> set t. hops x \<le> hops y" and st: "sorted (map hops t)"
    and hi: "\<forall>y \<in> set t. hops y \<le> hops x + 1"
    using assms(1) unfolding q bfs_order_def by auto
  have nw: "\<forall>e \<in> set new. hops e = hops x + 1" using assms(3) q by simp
  have "sorted (map hops new)"
    using nw by (induction new) auto
  then have s: "sorted (map hops (t @ new))"
    using st hi nw by (auto simp: sorted_append)
  have h: "hops x \<le> hops (hd (t @ new))" if "t @ new \<noteq> []"
  proof (cases "t = []")
    case True
    then have "hd (t @ new) \<in> set new" using that by simp
    then have "hops (hd (t @ new)) = hops x + 1" using nw by blast
    then show ?thesis by simp
  next
    case False
    then have "hd (t @ new) \<in> set t" by simp
    then show ?thesis using lo by blast
  qed
  have "\<forall>e \<in> set (t @ new). hops e \<le> hops (hd (t @ new)) + 1"
  proof
    fix e assume e: "e \<in> set (t @ new)"
    then have "t @ new \<noteq> []" by auto
    from h[OF this] show "hops e \<le> hops (hd (t @ new)) + 1"
      using e hi nw by auto
  qed
  then show ?thesis using s unfolding q bfs_order_def by simp
qed

lemma bfs_Continue_queue:
  assumes "bfs_iteration graph goal u = Continue u'"
  shows "\<exists>new. open_queue u' = tl (open_queue u) @ new \<and>
           (\<forall>e \<in> set new. hops e = hops (hd (open_queue u)) + 1)"
proof -
  have ne: "open_queue u \<noteq> []"
    using assms by (auto simp: bfs_iteration_def)
  obtain n p c where l: "hd (open_queue u) = (n, p, c)"
    by (cases "hd (open_queue u)")
  show ?thesis
  proof (cases "n \<in> closed_set u")
    case True
    then have "open_queue u' = tl (open_queue u) @ []"
      using assms ne l by (auto simp: bfs_iteration_def Let_def split: if_splits)
    then show ?thesis by fastforce
  next
    case False
    then obtain adj where adj: "map_of graph n = Some adj"
      using assms ne l by (auto simp: bfs_iteration_def Let_def split: if_splits option.splits)
    have o: "open_queue u' = tl (open_queue u) @
                 map (\<lambda>(m, w). (m, p @ [m], c + w))
                   (filter (\<lambda>(m, w). m \<notin> insert n (closed_set u)) (sort adj))"
      using assms ne l False adj
      by (auto simp: bfs_iteration_def Let_def push_neighbors_eq split: if_splits prod.splits)
    have "\<forall>e \<in> set (map (\<lambda>(m, w). (m, p @ [m], c + w))
                   (filter (\<lambda>(m, w). m \<notin> insert n (closed_set u)) (sort adj))).
            hops e = hops (hd (open_queue u)) + 1"
      by (auto simp: hops_def l)
    then show ?thesis using o by blast
  qed
qed

definition bfs_inv :: "('a::linorder) graph \<Rightarrow> 'a \<Rightarrow> 'a \<Rightarrow> 'a bfs_vars \<Rightarrow> bool" where
  "bfs_inv graph start goal u =
     (bfs_order (open_queue u) \<and> goal \<notin> closed_set u \<and>
      opt_inv graph start hops (\<lambda>q. int (length q)) (set (open_queue u)) (closed_set u))"

lemma bfs_inv_init: "bfs_inv graph start goal (bfs_init start)"
  by (simp add: bfs_inv_def bfs_init_def bfs_order_def opt_inv_def hops_def)

lemma bfs_head_shortest:
  assumes "bfs_inv graph start goal u" and "open_queue u \<noteq> []"
    and "hd (open_queue u) = (n, p, c)" and "n \<notin> closed_set u"
    and "path_from_to graph start n a"
  shows "length p \<le> length a"
proof -
  have inv: "opt_inv graph start hops (\<lambda>q. int (length q)) (set (open_queue u)) (closed_set u)"
    and ord: "bfs_order (open_queue u)"
    using assms(1) by (simp_all add: bfs_inv_def)
  from first_unclosed[OF inv assms(5,4)] obtain a1 x b e where
    e: "a = a1 @ x # b" "e \<in> set (open_queue u)" "hops e \<le> int (length (a1 @ [x]))"
    by blast
  have "hops (hd (open_queue u)) \<le> hops e"
    using bfs_order_hd[OF ord e(2)] .
  then have "int (length p) \<le> int (length (a1 @ [x]))"
    using e(3) assms(3) by (simp add: hops_def)
  then show ?thesis using e(1) by simp
qed

lemma bfs_inv_Continue:
  assumes "bfs_iteration graph goal u = Continue u'" and "bfs_inv graph start goal u"
  shows "bfs_inv graph start goal u'"
proof -
  have ne: "open_queue u \<noteq> []"
    and st: "search_step graph goal (hd (open_queue u)) (set (open_queue u)) (closed_set u)
           (set (open_queue u')) (closed_set u')"
    using bfs_Continue_step[OF assms(1)] by simp_all
  obtain n p c where l: "hd (open_queue u) = (n, p, c)"
    by (cases "hd (open_queue u)")
  have inv: "opt_inv graph start hops (\<lambda>q. int (length q)) (set (open_queue u)) (closed_set u)"
    and ord: "bfs_order (open_queue u)" and g: "goal \<notin> closed_set u"
    using assms(2) by (simp_all add: bfs_inv_def)
  obtain new where new: "open_queue u' = tl (open_queue u) @ new"
    "\<forall>e \<in> set new. hops e = hops (hd (open_queue u)) + 1"
    using bfs_Continue_queue[OF assms(1)] by blast
  have ord': "bfs_order (open_queue u')"
    unfolding new(1) using ord ne new(2) by (rule bfs_order_step)
  have g': "goal \<notin> closed_set u'"
    using st g by (rule step_goal_open)
  have "opt_inv graph start hops (\<lambda>q. int (length q)) (set (open_queue u')) (closed_set u')"
  proof (rule opt_inv_step[OF st[unfolded l] inv])
    fix a m w
    assume "n \<notin> closed_set u" "path_from_to graph start n a"
    then have "length p \<le> length a"
      using bfs_head_shortest[OF assms(2) ne l] by blast
    then show "hops (m, p @ [m], c + w) \<le> int (length (a @ [m]))"
      by (simp add: hops_def)
  qed
  then show ?thesis using ord' g' by (simp add: bfs_inv_def)
qed

lemma bfs_shortest:
  fixes graph :: "('a::linorder) graph"
  assumes "wf_graph graph" and "start \<in> fst ` set graph" and "reachable graph start goal"
  shows "\<exists>r p. bfs_collect_trace clock graph start goal = Inr r \<and> r_path r = Some p \<and>
           path_from_to graph start goal p \<and>
           (\<forall>q. path_from_to graph start goal q \<longrightarrow> length p - 1 \<le> length q - 1)"
proof -
  obtain found v where s: "bfs_search graph start goal = Inr (found, v)"
    using bfs_search_returns[OF assms(1,2)] by fastforce
  have "\<exists>u. bfs_inv graph start goal u \<and> (found = None \<and> u = v \<and> open_queue u = [] \<or>
           open_queue u \<noteq> [] \<and> (\<exists>fd. found = Some fd \<and> bfs_iteration graph goal u = Return fd v))"
    using s unfolding bfs_search_def
  proof (rule bfs_loop_rule)
    show "bfs_inv graph start goal (bfs_init start)" by (rule bfs_inv_init)
  next
    fix u u' :: "'a bfs_vars"
    assume "bfs_inv graph start goal u" "bfs_iteration graph goal u = Continue u'"
    then show "bfs_inv graph start goal u'" using bfs_inv_Continue by blast
  qed
  then obtain u where u: "bfs_inv graph start goal u"
    and c: "found = None \<and> u = v \<and> open_queue u = [] \<or>
            open_queue u \<noteq> [] \<and> (\<exists>fd. found = Some fd \<and> bfs_iteration graph goal u = Return fd v)"
    by blast
  obtain q0 where q0: "path_from_to graph start goal q0"
    using assms(3) by (auto simp: reachable_def)
  have inv: "opt_inv graph start hops (\<lambda>q. int (length q)) (set (open_queue u)) (closed_set u)"
    and g: "goal \<notin> closed_set u"
    using u by (simp_all add: bfs_inv_def)
  have ne: "open_queue u \<noteq> []"
    using first_unclosed[OF inv q0 g] by auto
  then obtain fd where fd: "found = Some fd" and ret: "bfs_iteration graph goal u = Return fd v"
    using c by blast
  obtain p c where pc: "fd = (p, c)" by (cases fd)
  have hd: "hd (open_queue u) = (goal, p, c)"
    using bfs_Return_open[OF ret] pc by simp
  have short: "length p \<le> length q" if "path_from_to graph start goal q" for q
    using bfs_head_shortest[OF u ne hd g that] .
  have "entry_inv graph start (goal, fd)"
    using bfs_search_entry[OF s[unfolded fd] wf_graph_dict[OF assms(1)]] .
  then have valid: "path_from_to graph start goal p"
    by (simp add: entry_inv_def pc)
  have "bfs_collect_trace clock graph start goal = Inr (make_result clock (Some (p, c)) v)"
    by (simp add: bfs_collect_trace_def s fd pc)
  moreover have "r_path (make_result clock (Some (p, c)) v) = Some p" by simp
  ultimately show ?thesis
    using valid short by (metis diff_le_mono)
qed

subsection \<open>A* returns the cost of a cheapest path\<close>

lemma consistent_edge:
  assumes "consistent heuristic graph" and "edge_weight graph x y = Some w"
    and "heuristic x = Some hx" and "heuristic y = Some hy"
  shows "hx \<le> w + hy"
proof -
  obtain adj where adj: "map_of graph x = Some adj" "map_of adj y = Some w"
    using assms(2) by (auto simp: edge_weight_def split: option.splits)
  have "(x, adj) \<in> set graph" using adj(1) by (rule map_of_SomeD)
  moreover have "(y, w) \<in> set adj" using adj(2) by (rule map_of_SomeD)
  ultimately show ?thesis
    using assms(1,3,4) unfolding consistent_def list_all_iff by fastforce
qed

lemma consistent_path:
  assumes "consistent heuristic graph" and "\<forall>y \<in> set (x # b). heuristic y \<noteq> None"
    and "path_cost graph (x # b) = Some cb"
  shows "the (heuristic x) \<le> cb + the (heuristic (last (x # b)))"
  using assms(2,3)
proof (induction b arbitrary: x cb)
  case Nil
  then show ?case by simp
next
  case (Cons y b)
  from Cons.prems(2) obtain w cb' where w: "edge_weight graph x y = Some w"
    and rest: "path_cost graph (y # b) = Some cb'" and cb: "cb = w + cb'"
    by (auto split: option.splits)
  obtain hx hy where h: "heuristic x = Some hx" "heuristic y = Some hy"
    using Cons.prems(1) by auto
  have "hx \<le> w + hy" using consistent_edge[OF assms(1) w h] .
  moreover have "the (heuristic y) \<le> cb' + the (heuristic (last (y # b)))"
    using Cons.IH[OF _ rest] Cons.prems(1) by simp
  ultimately show ?case using h cb by simp
qed

lemma path_keys:
  assumes "wf_graph graph" and "path_cost graph p \<noteq> None" and "hd p \<in> fst ` set graph"
  shows "set p \<subseteq> fst ` set graph"
proof (rule path_stays[OF _ assms(2,3)])
  show "\<forall>n \<in> fst ` set graph. \<forall>adj. map_of graph n = Some adj \<longrightarrow> fst ` set adj \<subseteq> fst ` set graph"
    using wf_neighbour_key[OF assms(1)] by fastforce
qed

definition astar_inv :: "('a::linorder) graph \<Rightarrow> 'a \<Rightarrow> 'a \<Rightarrow> ('a \<rightharpoonup> int) \<Rightarrow> 'a astar_vars \<Rightarrow> bool" where
  "astar_inv graph start goal heuristic u =
     (pq_inv heuristic (open_pq u) \<and> goal \<notin> closed_set u \<and>
      (\<forall>x \<in> pq_entries (open_pq u). entry_inv graph start x) \<and>
      opt_inv graph start (\<lambda>e. snd (snd e)) (\<lambda>q. the (path_cost graph q))
        (pq_entries (open_pq u)) (closed_set u))"

lemma astar_inv_init:
  "heuristic start = Some h \<Longrightarrow> astar_inv graph start goal heuristic (astar_init start h)"
  by (simp add: astar_inv_def astar_init_def pq_inv_def is_heap_def pq_entries_def opt_inv_def
        entry_inv_start)

lemma fst_le: "(a::int, b) \<le> (c, d) \<Longrightarrow> a \<le> c"
  by (auto simp: less_eq_prod_def)

lemma astar_popped_cheapest:
  fixes graph :: "('a::linorder) graph"
  assumes wf: "wf_graph graph" and st: "start \<in> fst ` set graph"
    and cov: "covers heuristic graph" and con: "consistent heuristic graph"
    and inv: "astar_inv graph start goal heuristic u"
    and pop: "heappop (open_pq u) = Inr ((f, g, n, p), open1)"
    and n: "n \<notin> closed_set u"
    and a: "path_from_to graph start n a" "path_cost graph a = Some ca"
  shows "g \<le> ca"
proof -
  have pq: "pq_inv heuristic (open_pq u)"
    and oi: "opt_inv graph start (\<lambda>e. snd (snd e)) (\<lambda>q. the (path_cost graph q))
        (pq_entries (open_pq u)) (closed_set u)"
    using inv by (simp_all add: astar_inv_def)
  from first_unclosed[OF oi a(1) n] obtain a1 x b e where
    e: "a = a1 @ x # b" "e \<in> pq_entries (open_pq u)" "fst e = x"
       "snd (snd e) \<le> the (path_cost graph (a1 @ [x]))"
    by blast
  obtain fe ge pe where fe: "(fe, ge, x, pe) \<in> set (open_pq u)" "e = (x, pe, ge)"
    using e(2,3) unfolding pq_entries_def by auto
  have popped: "(f, g, n, p) \<in> set (open_pq u)" using set_heappop[OF pop] by simp
  have hn: "heuristic n = Some (f - g)" and hx: "heuristic x = Some (fe - ge)"
    using pq popped fe(1) unfolding pq_inv_def by auto
  have "(f, g, n, p) \<le> (fe, ge, x, pe)"
    using heappop_least[OF _ pop fe(1)] pq by (simp add: pq_inv_def)
  then have ffe: "f \<le> fe" by (rule fst_le)
  obtain c1 c2 where c: "path_cost graph (a1 @ [x]) = Some c1" "path_cost graph (x # b) = Some c2"
    "ca = c1 + c2"
    using a(2) unfolding e(1) by (subst (asm) path_cost_append) (auto split: option.splits)
  have keys: "set a \<subseteq> fst ` set graph"
    using path_keys[OF wf] a st by (simp add: path_from_to_def)
  have "\<forall>y \<in> set (x # b). heuristic y \<noteq> None"
  proof
    fix y assume "y \<in> set (x # b)"
    then have "y \<in> set a" unfolding e(1) by auto
    then have "y \<in> fst ` set graph" using keys by blast
    then show "heuristic y \<noteq> None" by (rule covers_key[OF cov])
  qed
  from consistent_path[OF con this c(2)]
  have "the (heuristic x) \<le> c2 + the (heuristic (last (x # b)))" .
  note cp = this
  moreover have "last (x # b) = n"
    using a(1) unfolding e(1) path_from_to_def by simp
  ultimately have "fe - ge \<le> c2 + (f - g)" using hn hx cp by simp
  moreover have "ge \<le> c1" using e(4) fe(2) c(1) by simp
  ultimately show ?thesis using ffe c(3) by linarith
qed

lemma astar_inv_Continue:
  fixes graph :: "('a::linorder) graph"
  assumes wf: "wf_graph graph" and st: "start \<in> fst ` set graph"
    and cov: "covers heuristic graph" and con: "consistent heuristic graph"
    and it: "astar_iteration graph goal heuristic u = Continue u'"
    and inv: "astar_inv graph start goal heuristic u"
  shows "astar_inv graph start goal heuristic u'"
proof -
  from astar_Continue_step[OF it] obtain f g n p open1 where
    pop: "heappop (open_pq u) = Inr ((f, g, n, p), open1)"
    and step: "search_step graph goal (n, p, g) (pq_entries (open_pq u)) (closed_set u)
             (pq_entries (open_pq u')) (closed_set u')"
    and pq: "pq_inv heuristic (open_pq u) \<longrightarrow> pq_inv heuristic (open_pq u')"
    by blast
  have pq': "pq_inv heuristic (open_pq u')" using pq inv by (simp add: astar_inv_def)
  have "goal \<notin> closed_set u" using inv by (simp add: astar_inv_def)
  with step have g': "goal \<notin> closed_set u'"
    by (rule step_goal_open)
  have en': "\<forall>x \<in> pq_entries (open_pq u'). entry_inv graph start x"
    using step wf_graph_dict[OF wf] inv[unfolded astar_inv_def, THEN conjunct2, THEN conjunct2, THEN conjunct1]
    by (rule step_entries)
  have oi: "opt_inv graph start (\<lambda>e. snd (snd e)) (\<lambda>q. the (path_cost graph q))
        (pq_entries (open_pq u)) (closed_set u)"
    using inv by (simp add: astar_inv_def)
  have "opt_inv graph start (\<lambda>e. snd (snd e)) (\<lambda>q. the (path_cost graph q))
        (pq_entries (open_pq u')) (closed_set u')"
  proof (rule opt_inv_step[OF step oi])
    fix a m w
    assume n: "n \<notin> closed_set u" and a: "path_from_to graph start n a"
      and w: "edge_weight graph n m = Some w"
    obtain ca where ca: "path_cost graph a = Some ca"
      using a by (auto simp: path_from_to_def)
    have "g \<le> ca"
      using astar_popped_cheapest[OF wf st cov con inv pop n a ca] .
    moreover have "path_cost graph (a @ [m]) = Some (ca + w)"
      using a ca w by (simp add: path_cost_snoc path_from_to_def)
    ultimately show "snd (snd (m, p @ [m], g + w)) \<le> the (path_cost graph (a @ [m]))"
      by simp
  qed
  then show ?thesis using pq' g' en' by (simp add: astar_inv_def)
qed

lemma astar_cheapest:
  fixes graph :: "('a::linorder) graph"
  assumes wf: "wf_graph graph" and st: "start \<in> fst ` set graph"
    and cov: "covers heuristic graph" and con: "consistent heuristic graph"
    and re: "reachable graph start goal"
  shows "\<exists>r c. astar_collect_trace clock graph start goal heuristic = Inr r \<and> r_cost r = Some c \<and>
           (\<exists>p. path_from_to graph start goal p \<and> path_cost graph p = Some c) \<and>
           (\<forall>q c'. path_from_to graph start goal q \<and> path_cost graph q = Some c' \<longrightarrow> c \<le> c')"
proof -
  obtain found v where s: "astar_search graph start goal heuristic = Inr (found, v)"
    using astar_search_returns[OF wf st cov] by fastforce
  obtain h where h: "heuristic start = Some h"
    and l: "astar_loop graph goal heuristic (astar_init start h) = Inr (found, v)"
    using s by (auto simp: astar_search_def split: option.splits)
  have "\<exists>u. astar_inv graph start goal heuristic u \<and> (found = None \<and> u = v \<and> open_pq u = [] \<or>
           open_pq u \<noteq> [] \<and> (\<exists>fd. found = Some fd \<and>
              astar_iteration graph goal heuristic u = Return fd v))"
    using l
  proof (rule astar_loop_rule)
    show "astar_inv graph start goal heuristic (astar_init start h)"
      using h by (rule astar_inv_init)
  next
    fix u u' :: "'a astar_vars"
    assume "astar_inv graph start goal heuristic u" "astar_iteration graph goal heuristic u = Continue u'"
    then show "astar_inv graph start goal heuristic u'"
      using astar_inv_Continue[OF wf st cov con] by blast
  qed
  then obtain u where u: "astar_inv graph start goal heuristic u"
    and c: "found = None \<and> u = v \<and> open_pq u = [] \<or>
            open_pq u \<noteq> [] \<and> (\<exists>fd. found = Some fd \<and>
              astar_iteration graph goal heuristic u = Return fd v)"
    by blast
  obtain q0 where q0: "path_from_to graph start goal q0"
    using re by (auto simp: reachable_def)
  have oi: "opt_inv graph start (\<lambda>e. snd (snd e)) (\<lambda>q. the (path_cost graph q))
        (pq_entries (open_pq u)) (closed_set u)"
    and g: "goal \<notin> closed_set u"
    using u by (simp_all add: astar_inv_def)
  have ne: "open_pq u \<noteq> []"
    using first_unclosed[OF oi q0 g] by (auto simp: pq_entries_def)
  then obtain fd where fd: "found = Some fd"
    and ret: "astar_iteration graph goal heuristic u = Return fd v"
    using c by blast
  obtain p c where pc: "fd = (p, c)" by (cases fd)
  obtain f open1 where pop: "heappop (open_pq u) = Inr ((f, c, goal, p), open1)"
    using astar_Return_open[OF ret] pc by auto
  have low: "c \<le> c'" if "path_from_to graph start goal q" "path_cost graph q = Some c'" for q c'
    using astar_popped_cheapest[OF wf st cov con u pop g that] .
  have "entry_inv graph start (goal, fd)"
    using astar_search_entry[OF s[unfolded fd] wf_graph_dict[OF wf]] .
  then have valid: "path_from_to graph start goal p \<and> path_cost graph p = Some c"
    by (simp add: entry_inv_def pc)
  have "astar_collect_trace clock graph start goal heuristic = Inr (make_result clock (Some (p, c)) v)"
    by (simp add: astar_collect_trace_def s fd pc)
  moreover have "r_cost (make_result clock (Some (p, c)) v) = Some c" by simp
  ultimately show ?thesis
    using valid low by blast
qed

section \<open>Properties\<close>

subsection \<open>Start equal to goal\<close>

lemma dfs_start_is_goal:
  "\<exists>r. dfs_collect_trace clock graph start start = Inr r \<and>
     r_path r = Some [start] \<and> r_cost r = Some 0 \<and> r_nodes_expanded r = 0"
  by (simp add: dfs_collect_trace_def dfs_search_def dfs_loop.simps
        dfs_init_def dfs_iteration_def make_result_def Let_def)

lemma bfs_start_is_goal:
  "\<exists>r. bfs_collect_trace clock graph start start = Inr r \<and>
     r_path r = Some [start] \<and> r_cost r = Some 0 \<and> r_nodes_expanded r = 0"
  by (simp add: bfs_collect_trace_def bfs_search_def bfs_loop.simps
        bfs_init_def bfs_iteration_def make_result_def Let_def)

lemma astar_start_is_goal:
  "heuristic start = Some h \<Longrightarrow>
   \<exists>r. astar_collect_trace clock graph start start heuristic = Inr r \<and>
     r_path r = Some [start] \<and> r_cost r = Some 0 \<and> r_nodes_expanded r = 0"
  by (simp add: astar_collect_trace_def astar_search_def astar_loop.simps
        astar_init_def astar_iteration_def make_result_def Let_def)

text \<open>
  C10. When start equals goal, each of the three strategies returns the path \<open>[start]\<close>
  with cost 0 and a nodes-expanded count of 0: the goal test on the first pop fires
  before anything is closed. DFS and BFS do so for every graph; A* reads
  \<open>heuristic[start]\<close> first, so its table must have an entry for start.
\<close>

theorem start_is_goal:
  "(\<exists>r. dfs_collect_trace clock graph start start = Inr r \<and>
        r_path r = Some [start] \<and> r_cost r = Some 0 \<and> r_nodes_expanded r = 0) \<and>
   (\<exists>r. bfs_collect_trace clock graph start start = Inr r \<and>
        r_path r = Some [start] \<and> r_cost r = Some 0 \<and> r_nodes_expanded r = 0) \<and>
   (heuristic start \<noteq> None \<longrightarrow>
     (\<exists>r. astar_collect_trace clock graph start start heuristic = Inr r \<and>
        r_path r = Some [start] \<and> r_cost r = Some 0 \<and> r_nodes_expanded r = 0))"
proof (intro conjI impI)
  show "\<exists>r. dfs_collect_trace clock graph start start = Inr r \<and>
        r_path r = Some [start] \<and> r_cost r = Some 0 \<and> r_nodes_expanded r = 0"
    by (rule dfs_start_is_goal)
  show "\<exists>r. bfs_collect_trace clock graph start start = Inr r \<and>
        r_path r = Some [start] \<and> r_cost r = Some 0 \<and> r_nodes_expanded r = 0"
    by (rule bfs_start_is_goal)
  assume "heuristic start \<noteq> None"
  then obtain h where "heuristic start = Some h" by blast
  then show "\<exists>r. astar_collect_trace clock graph start start heuristic = Inr r \<and>
        r_path r = Some [start] \<and> r_cost r = Some 0 \<and> r_nodes_expanded r = 0"
    by (rule astar_start_is_goal)
qed

theorem start_is_goal_witness:
  "[''A'' \<mapsto> (0::int)] ''A'' \<noteq> None \<and>
   (\<exists>r. astar_collect_trace (0, 1) [(''A'', [(''B'', 3)]), (''B'', [(''A'', 3)])] ''A'' ''A'' [''A'' \<mapsto> 0] = Inr r \<and>
        r_path r = Some [''A''] \<and> r_cost r = Some 0 \<and> r_nodes_expanded r = 0)"
  using start_is_goal [of "(0, 1)" "[(''A'', [(''B'', 3)]), (''B'', [(''A'', 3)])]" "''A''" "[''A'' \<mapsto> 0]"]
  by simp

subsection \<open>Identifiers missing from the graph\<close>

lemma dfs_start_missing:
  "start \<notin> fst ` set graph \<Longrightarrow> start \<noteq> goal \<Longrightarrow>
   dfs_collect_trace clock graph start goal = Inl KeyError"
  by (simp add: dfs_collect_trace_def dfs_search_def dfs_loop.simps
        dfs_init_def dfs_iteration_def make_result_def Let_def map_of_eq_None_iff[THEN iffD2])

lemma bfs_start_missing:
  "start \<notin> fst ` set graph \<Longrightarrow> start \<noteq> goal \<Longrightarrow>
   bfs_collect_trace clock graph start goal = Inl KeyError"
  by (simp add: bfs_collect_trace_def bfs_search_def bfs_loop.simps
        bfs_init_def bfs_iteration_def make_result_def Let_def map_of_eq_None_iff[THEN iffD2])

lemma astar_start_missing:
  "start \<notin> fst ` set graph \<Longrightarrow> start \<noteq> goal \<Longrightarrow>
   astar_collect_trace clock graph start goal heuristic = Inl KeyError"
  by (cases "heuristic start")
     (simp_all add: astar_collect_trace_def astar_search_def astar_loop.simps
        astar_init_def astar_iteration_def make_result_def Let_def map_of_eq_None_iff[THEN iffD2])

text \<open>
  C4, as stated: whenever start or goal is not a key of the graph, the search fails with
  an error. It does not: with goal \<open>B\<close> absent from the graph \<open>{A: {}}\<close>, DFS from \<open>A\<close>
  expands \<open>A\<close>, runs out of frontier and returns an absent-path Result with its trace.
\<close>

theorem missing_goal_counterexample:
  "''B'' \<notin> fst ` set [(''A'', [])] \<and>
   dfs_collect_trace (0, 1) [(''A'', [])] ''A'' ''B'' =
     Inr \<lparr>r_path = None, r_cost = None, r_nodes_expanded = 1, r_step = 1, r_execution_time = 1,
          r_trace = [\<lparr>tr_step = 0, tr_current = None, tr_path = [], tr_cost = 0, tr_f = None,
                      tr_open = [''A''], tr_closed = {}, tr_action = ''Initialize''\<rparr>,
                     \<lparr>tr_step = 1, tr_current = Some ''A'', tr_path = [''A''], tr_cost = 0,
                      tr_f = None, tr_open = [], tr_closed = {},
                      tr_action = ''Pop from Stack''\<rparr>]\<rparr>"
  by (simp add: dfs_collect_trace_def dfs_search_def dfs_loop.simps
        dfs_init_def dfs_iteration_def make_result_def Let_def)

text \<open>
  C4, amended: when start is not a key of the graph and differs from goal, each of the
  three strategies raises KeyError and returns nothing, so no trace reaches the caller.
  Nothing checks the goal.
\<close>

theorem missing_start_raises:
  "start \<notin> fst ` set graph \<Longrightarrow> start \<noteq> goal \<Longrightarrow>
   dfs_collect_trace clock graph start goal = Inl KeyError \<and>
   bfs_collect_trace clock graph start goal = Inl KeyError \<and>
   astar_collect_trace clock graph start goal heuristic = Inl KeyError"
  by (simp add: dfs_start_missing bfs_start_missing astar_start_missing)

theorem missing_start_raises_witness:
  "''B'' \<notin> fst ` set [(''A'', [])] \<and> ''B'' \<noteq> ''A'' \<and>
   dfs_collect_trace (0, 1) [(''A'', [])] ''B'' ''A'' = Inl KeyError \<and>
   bfs_collect_trace (0, 1) [(''A'', [])] ''B'' ''A'' = Inl KeyError \<and>
   astar_collect_trace (0, 1) [(''A'', [])] ''B'' ''A'' [''A'' \<mapsto> 0, ''B'' \<mapsto> 2] = Inl KeyError"
  using missing_start_raises [of "''B''" "[(''A'', [])]" "''A''" "(0, 1)" "[''A'' \<mapsto> 0, ''B'' \<mapsto> 2]"]
  by simp

text \<open>
  C7. In every search the closed set only grows from one trace record to the next, and
  at return the nodes-expanded count is the size of the final closed set. The counter
  goes up by one at each \<open>closed_set.add\<close>, so the equality says that no add repeated a
  node that was already closed.
\<close>

theorem closed_set_count:
  "(dfs_collect_trace clock graph start goal = Inr r1 \<longrightarrow>
      (\<exists>found v. dfs_search graph start goal = Inr (found, v) \<and> finite (closed_set v) \<and>
         r_nodes_expanded r1 = card (closed_set v) \<and>
         sorted_wrt (\<subseteq>) (map tr_closed (r_trace r1)) \<and>
         (\<forall>t \<in> set (r_trace r1). tr_closed t \<subseteq> closed_set v))) \<and>
   (bfs_collect_trace clock graph start goal = Inr r2 \<longrightarrow>
      (\<exists>found v. bfs_search graph start goal = Inr (found, v) \<and> finite (closed_set v) \<and>
         r_nodes_expanded r2 = card (closed_set v) \<and>
         sorted_wrt (\<subseteq>) (map tr_closed (r_trace r2)) \<and>
         (\<forall>t \<in> set (r_trace r2). tr_closed t \<subseteq> closed_set v))) \<and>
   (astar_collect_trace clock graph start goal heuristic = Inr r3 \<longrightarrow>
      (\<exists>found v. astar_search graph start goal heuristic = Inr (found, v) \<and> finite (closed_set v) \<and>
         r_nodes_expanded r3 = card (closed_set v) \<and>
         sorted_wrt (\<subseteq>) (map tr_closed (r_trace r3)) \<and>
         (\<forall>t \<in> set (r_trace r3). tr_closed t \<subseteq> closed_set v)))"
proof (intro conjI impI)
  assume "dfs_collect_trace clock graph start goal = Inr r1"
  from collect_Inr(1)[OF this] obtain found v where
    s: "dfs_search graph start goal = Inr (found, v)" and r: "r1 = make_result clock found v"
    by blast
  show "\<exists>found v. dfs_search graph start goal = Inr (found, v) \<and> finite (closed_set v) \<and>
         r_nodes_expanded r1 = card (closed_set v) \<and>
         sorted_wrt (\<subseteq>) (map tr_closed (r_trace r1)) \<and>
         (\<forall>t \<in> set (r_trace r1). tr_closed t \<subseteq> closed_set v)"
    using s count_inv_result[OF dfs_search_trace(1)[OF s], of clock found] unfolding r by blast
next
  assume "bfs_collect_trace clock graph start goal = Inr r2"
  from collect_Inr(2)[OF this] obtain found v where
    s: "bfs_search graph start goal = Inr (found, v)" and r: "r2 = make_result clock found v"
    by blast
  show "\<exists>found v. bfs_search graph start goal = Inr (found, v) \<and> finite (closed_set v) \<and>
         r_nodes_expanded r2 = card (closed_set v) \<and>
         sorted_wrt (\<subseteq>) (map tr_closed (r_trace r2)) \<and>
         (\<forall>t \<in> set (r_trace r2). tr_closed t \<subseteq> closed_set v)"
    using s count_inv_result[OF bfs_search_trace(1)[OF s], of clock found] unfolding r by blast
next
  assume "astar_collect_trace clock graph start goal heuristic = Inr r3"
  from collect_Inr(3)[OF this] obtain found v where
    s: "astar_search graph start goal heuristic = Inr (found, v)" and r: "r3 = make_result clock found v"
    by blast
  show "\<exists>found v. astar_search graph start goal heuristic = Inr (found, v) \<and> finite (closed_set v) \<and>
         r_nodes_expanded r3 = card (closed_set v) \<and>
         sorted_wrt (\<subseteq>) (map tr_closed (r_trace r3)) \<and>
         (\<forall>t \<in> set (r_trace r3). tr_closed t \<subseteq> closed_set v)"
    using s count_inv_result[OF astar_search_trace(1)[OF s], of clock found] unfolding r by blast
qed

theorem closed_set_count_witness:
  "(\<exists>r1. dfs_collect_trace (0, 1) [(''A'', [(''B'', 3)]), (''B'', [(''A'', 3)])] ''A'' ''B'' = Inr r1 \<and>
      (\<exists>found v. dfs_search [(''A'', [(''B'', 3)]), (''B'', [(''A'', 3)])] ''A'' ''B'' = Inr (found, v) \<and>
         r_nodes_expanded r1 = card (closed_set v))) \<and>
   (\<exists>r2. bfs_collect_trace (0, 1) [(''A'', [(''B'', 3)]), (''B'', [(''A'', 3)])] ''A'' ''B'' = Inr r2 \<and>
      (\<exists>found v. bfs_search [(''A'', [(''B'', 3)]), (''B'', [(''A'', 3)])] ''A'' ''B'' = Inr (found, v) \<and>
         r_nodes_expanded r2 = card (closed_set v))) \<and>
   (\<exists>r3. astar_collect_trace (0, 1) [(''A'', [(''B'', 3)]), (''B'', [(''A'', 3)])] ''A'' ''B''
            [''A'' \<mapsto> 2, ''B'' \<mapsto> 0] = Inr r3 \<and>
      (\<exists>found v. astar_search [(''A'', [(''B'', 3)]), (''B'', [(''A'', 3)])] ''A'' ''B''
            [''A'' \<mapsto> 2, ''B'' \<mapsto> 0] = Inr (found, v) \<and>
         r_nodes_expanded r3 = card (closed_set v)))"
proof -
  obtain r1 where r1: "dfs_collect_trace (0, 1) [(''A'', [(''B'', 3)]), (''B'', [(''A'', 3)])] ''A'' ''B'' = Inr r1"
    using dfs_example by blast
  obtain r2 where r2: "bfs_collect_trace (0, 1) [(''A'', [(''B'', 3)]), (''B'', [(''A'', 3)])] ''A'' ''B'' = Inr r2"
    using bfs_example by blast
  obtain r3 where r3: "astar_collect_trace (0, 1) [(''A'', [(''B'', 3)]), (''B'', [(''A'', 3)])] ''A'' ''B''
            [''A'' \<mapsto> 2, ''B'' \<mapsto> 0] = Inr r3"
    using astar_example by blast
  show ?thesis
    using closed_set_count [where clock = "(0, 1)" and graph = "[(''A'', [(''B'', 3)]), (''B'', [(''A'', 3)])]"
        and start = "''A''" and goal = "''B''" and ?r1.0 = r1 and ?r2.0 = r2 and ?r3.0 = r3
        and heuristic = "[''A'' \<mapsto> 2, ''B'' \<mapsto> 0]"] r1 r2 r3
    by blast
qed

text \<open>
  C6. When a search succeeds, its trace holds exactly one record tagged \<open>GOAL FOUND!\<close>
  (DFS, BFS) or \<open>OPTIMAL GOAL!\<close> (A*), that record is the last one, and its path and
  cost are the path and cost of the returned Result.
\<close>

theorem goal_record_last:
  "(dfs_collect_trace clock graph start goal = Inr r1 \<and> r_path r1 \<noteq> None \<longrightarrow>
      r_trace r1 \<noteq> [] \<and> tr_action (last (r_trace r1)) = ''GOAL FOUND!'' \<and>
      length (filter (\<lambda>t. tr_action t = ''GOAL FOUND!'') (r_trace r1)) = 1 \<and>
      r_path r1 = Some (tr_path (last (r_trace r1))) \<and>
      r_cost r1 = Some (tr_cost (last (r_trace r1)))) \<and>
   (bfs_collect_trace clock graph start goal = Inr r2 \<and> r_path r2 \<noteq> None \<longrightarrow>
      r_trace r2 \<noteq> [] \<and> tr_action (last (r_trace r2)) = ''GOAL FOUND!'' \<and>
      length (filter (\<lambda>t. tr_action t = ''GOAL FOUND!'') (r_trace r2)) = 1 \<and>
      r_path r2 = Some (tr_path (last (r_trace r2))) \<and>
      r_cost r2 = Some (tr_cost (last (r_trace r2)))) \<and>
   (astar_collect_trace clock graph start goal heuristic = Inr r3 \<and> r_path r3 \<noteq> None \<longrightarrow>
      r_trace r3 \<noteq> [] \<and> tr_action (last (r_trace r3)) = ''OPTIMAL GOAL!'' \<and>
      length (filter (\<lambda>t. tr_action t = ''OPTIMAL GOAL!'') (r_trace r3)) = 1 \<and>
      r_path r3 = Some (tr_path (last (r_trace r3))) \<and>
      r_cost r3 = Some (tr_cost (last (r_trace r3))))"
proof (rule conjI [OF _ conjI]; rule impI)
  assume a: "dfs_collect_trace clock graph start goal = Inr r1 \<and> r_path r1 \<noteq> None"
  from collect_Inr(1) a obtain found v where
    s: "dfs_search graph start goal = Inr (found, v)" and r: "r1 = make_result clock found v"
    by blast
  obtain fd where fd: "found = Some fd" using found_of_path[OF r] a by blast
  show "r_trace r1 \<noteq> [] \<and> tr_action (last (r_trace r1)) = ''GOAL FOUND!'' \<and>
      length (filter (\<lambda>t. tr_action t = ''GOAL FOUND!'') (r_trace r1)) = 1 \<and>
      r_path r1 = Some (tr_path (last (r_trace r1))) \<and>
      r_cost r1 = Some (tr_cost (last (r_trace r1)))"
    using dfs_search_trace(2)[OF s fd] r unfolding fd by (rule goal_trace_result)
next
  assume a: "bfs_collect_trace clock graph start goal = Inr r2 \<and> r_path r2 \<noteq> None"
  from collect_Inr(2) a obtain found v where
    s: "bfs_search graph start goal = Inr (found, v)" and r: "r2 = make_result clock found v"
    by blast
  obtain fd where fd: "found = Some fd" using found_of_path[OF r] a by blast
  show "r_trace r2 \<noteq> [] \<and> tr_action (last (r_trace r2)) = ''GOAL FOUND!'' \<and>
      length (filter (\<lambda>t. tr_action t = ''GOAL FOUND!'') (r_trace r2)) = 1 \<and>
      r_path r2 = Some (tr_path (last (r_trace r2))) \<and>
      r_cost r2 = Some (tr_cost (last (r_trace r2)))"
    using bfs_search_trace(2)[OF s fd] r unfolding fd by (rule goal_trace_result)
next
  assume a: "astar_collect_trace clock graph start goal heuristic = Inr r3 \<and> r_path r3 \<noteq> None"
  from collect_Inr(3) a obtain found v where
    s: "astar_search graph start goal heuristic = Inr (found, v)" and r: "r3 = make_result clock found v"
    by blast
  obtain fd where fd: "found = Some fd" using found_of_path[OF r] a by blast
  show "r_trace r3 \<noteq> [] \<and> tr_action (last (r_trace r3)) = ''OPTIMAL GOAL!'' \<and>
      length (filter (\<lambda>t. tr_action t = ''OPTIMAL GOAL!'') (r_trace r3)) = 1 \<and>
      r_path r3 = Some (tr_path (last (r_trace r3))) \<and>
      r_cost r3 = Some (tr_cost (last (r_trace r3)))"
    using astar_search_trace(2)[OF s fd] r unfolding fd by (rule goal_trace_result)
qed

theorem goal_record_last_witness:
  "(\<exists>r1. dfs_collect_trace (0, 1) [(''A'', [(''B'', 3)]), (''B'', [(''A'', 3)])] ''A'' ''B'' = Inr r1 \<and>
      r_path r1 \<noteq> None \<and> tr_action (last (r_trace r1)) = ''GOAL FOUND!'' \<and>
      r_path r1 = Some (tr_path (last (r_trace r1)))) \<and>
   (\<exists>r2. bfs_collect_trace (0, 1) [(''A'', [(''B'', 3)]), (''B'', [(''A'', 3)])] ''A'' ''B'' = Inr r2 \<and>
      r_path r2 \<noteq> None \<and> tr_action (last (r_trace r2)) = ''GOAL FOUND!'' \<and>
      r_path r2 = Some (tr_path (last (r_trace r2)))) \<and>
   (\<exists>r3. astar_collect_trace (0, 1) [(''A'', [(''B'', 3)]), (''B'', [(''A'', 3)])] ''A'' ''B''
            [''A'' \<mapsto> 2, ''B'' \<mapsto> 0] = Inr r3 \<and>
      r_path r3 \<noteq> None \<and> tr_action (last (r_trace r3)) = ''OPTIMAL GOAL!'' \<and>
      r_path r3 = Some (tr_path (last (r_trace r3))))"
proof -
  obtain r1 where r1: "dfs_collect_trace (0, 1) [(''A'', [(''B'', 3)]), (''B'', [(''A'', 3)])] ''A'' ''B'' = Inr r1"
      "r_path r1 \<noteq> None"
    using dfs_example by force
  obtain r2 where r2: "bfs_collect_trace (0, 1) [(''A'', [(''B'', 3)]), (''B'', [(''A'', 3)])] ''A'' ''B'' = Inr r2"
      "r_path r2 \<noteq> None"
    using bfs_example by force
  obtain r3 where r3: "astar_collect_trace (0, 1) [(''A'', [(''B'', 3)]), (''B'', [(''A'', 3)])] ''A'' ''B''
            [''A'' \<mapsto> 2, ''B'' \<mapsto> 0] = Inr r3" "r_path r3 \<noteq> None"
    using astar_example by force
  show ?thesis
    using goal_record_last [where clock = "(0, 1)" and graph = "[(''A'', [(''B'', 3)]), (''B'', [(''A'', 3)])]"
        and start = "''A''" and goal = "''B''" and ?r1.0 = r1 and ?r2.0 = r2 and ?r3.0 = r3
        and heuristic = "[''A'' \<mapsto> 2, ''B'' \<mapsto> 0]"] r1 r2 r3
    by blast
qed

text \<open>
  C9. When a search succeeds on a graph whose dicts have distinct keys, the returned
  path starts at start, ends at goal, each consecutive pair of its nodes is an edge,
  and the returned cost is the sum of the weights of those edges: \<open>path_cost\<close> is
  defined exactly on such paths.
\<close>

theorem returned_path_valid:
  "graph_dict graph \<Longrightarrow>
   (dfs_collect_trace clock graph start goal = Inr r1 \<and> r_path r1 = Some p1 \<longrightarrow>
      p1 \<noteq> [] \<and> hd p1 = start \<and> last p1 = goal \<and>
      (\<exists>c. path_cost graph p1 = Some c \<and> r_cost r1 = Some c)) \<and>
   (bfs_collect_trace clock graph start goal = Inr r2 \<and> r_path r2 = Some p2 \<longrightarrow>
      p2 \<noteq> [] \<and> hd p2 = start \<and> last p2 = goal \<and>
      (\<exists>c. path_cost graph p2 = Some c \<and> r_cost r2 = Some c)) \<and>
   (astar_collect_trace clock graph start goal heuristic = Inr r3 \<and> r_path r3 = Some p3 \<longrightarrow>
      p3 \<noteq> [] \<and> hd p3 = start \<and> last p3 = goal \<and>
      (\<exists>c. path_cost graph p3 = Some c \<and> r_cost r3 = Some c))"
proof (rule conjI [OF _ conjI]; rule impI)
  assume g: "graph_dict graph"
    and a: "dfs_collect_trace clock graph start goal = Inr r1 \<and> r_path r1 = Some p1"
  from collect_Inr(1) a obtain found v where
    s: "dfs_search graph start goal = Inr (found, v)" and r: "r1 = make_result clock found v"
    by blast
  obtain fd where fd: "found = Some fd" using found_of_path[OF r] a by auto
  show "p1 \<noteq> [] \<and> hd p1 = start \<and> last p1 = goal \<and>
      (\<exists>c. path_cost graph p1 = Some c \<and> r_cost r1 = Some c)"
    using dfs_search_entry[OF s[unfolded fd] g] r[unfolded fd] a by (intro entry_inv_result) auto
next
  assume g: "graph_dict graph"
    and a: "bfs_collect_trace clock graph start goal = Inr r2 \<and> r_path r2 = Some p2"
  from collect_Inr(2) a obtain found v where
    s: "bfs_search graph start goal = Inr (found, v)" and r: "r2 = make_result clock found v"
    by blast
  obtain fd where fd: "found = Some fd" using found_of_path[OF r] a by auto
  show "p2 \<noteq> [] \<and> hd p2 = start \<and> last p2 = goal \<and>
      (\<exists>c. path_cost graph p2 = Some c \<and> r_cost r2 = Some c)"
    using bfs_search_entry[OF s[unfolded fd] g] r[unfolded fd] a by (intro entry_inv_result) auto
next
  assume g: "graph_dict graph"
    and a: "astar_collect_trace clock graph start goal heuristic = Inr r3 \<and> r_path r3 = Some p3"
  from collect_Inr(3) a obtain found v where
    s: "astar_search graph start goal heuristic = Inr (found, v)" and r: "r3 = make_result clock found v"
    by blast
  obtain fd where fd: "found = Some fd" using found_of_path[OF r] a by auto
  show "p3 \<noteq> [] \<and> hd p3 = start \<and> last p3 = goal \<and>
      (\<exists>c. path_cost graph p3 = Some c \<and> r_cost r3 = Some c)"
    using astar_search_entry[OF s[unfolded fd] g] r[unfolded fd] a by (intro entry_inv_result) auto
qed

lemma example_graph_dict: "graph_dict [(''A'', [(''B'', 3)]), (''B'', [(''A'', 3)])]"
  by (simp add: graph_dict_def is_dict_def)

theorem returned_path_valid_witness:
  "graph_dict [(''A'', [(''B'', 3)]), (''B'', [(''A'', 3)])] \<and>
   (\<exists>r1 p1. dfs_collect_trace (0, 1) [(''A'', [(''B'', 3)]), (''B'', [(''A'', 3)])] ''A'' ''B'' = Inr r1 \<and>
      r_path r1 = Some p1 \<and> hd p1 = ''A'' \<and> last p1 = ''B'' \<and>
      (\<exists>c. path_cost [(''A'', [(''B'', 3)]), (''B'', [(''A'', 3)])] p1 = Some c \<and> r_cost r1 = Some c)) \<and>
   (\<exists>r2 p2. bfs_collect_trace (0, 1) [(''A'', [(''B'', 3)]), (''B'', [(''A'', 3)])] ''A'' ''B'' = Inr r2 \<and>
      r_path r2 = Some p2 \<and> hd p2 = ''A'' \<and> last p2 = ''B'' \<and>
      (\<exists>c. path_cost [(''A'', [(''B'', 3)]), (''B'', [(''A'', 3)])] p2 = Some c \<and> r_cost r2 = Some c)) \<and>
   (\<exists>r3 p3. astar_collect_trace (0, 1) [(''A'', [(''B'', 3)]), (''B'', [(''A'', 3)])] ''A'' ''B''
            [''A'' \<mapsto> 2, ''B'' \<mapsto> 0] = Inr r3 \<and>
      r_path r3 = Some p3 \<and> hd p3 = ''A'' \<and> last p3 = ''B'' \<and>
      (\<exists>c. path_cost [(''A'', [(''B'', 3)]), (''B'', [(''A'', 3)])] p3 = Some c \<and> r_cost r3 = Some c))"
proof -
  obtain r1 where r1: "dfs_collect_trace (0, 1) [(''A'', [(''B'', 3)]), (''B'', [(''A'', 3)])] ''A'' ''B'' = Inr r1"
      "r_path r1 = Some [''A'', ''B'']"
    using dfs_example by force
  obtain r2 where r2: "bfs_collect_trace (0, 1) [(''A'', [(''B'', 3)]), (''B'', [(''A'', 3)])] ''A'' ''B'' = Inr r2"
      "r_path r2 = Some [''A'', ''B'']"
    using bfs_example by force
  obtain r3 where r3: "astar_collect_trace (0, 1) [(''A'', [(''B'', 3)]), (''B'', [(''A'', 3)])] ''A'' ''B''
            [''A'' \<mapsto> 2, ''B'' \<mapsto> 0] = Inr r3" "r_path r3 = Some [''A'', ''B'']"
    using astar_example by force
  show ?thesis
    using returned_path_valid [OF example_graph_dict, where clock = "(0, 1)"
        and start = "''A''" and goal = "''B''" and ?r1.0 = r1 and ?r2.0 = r2 and ?r3.0 = r3
        and ?p1.0 = "[''A'', ''B'']" and ?p2.0 = "[''A'', ''B'']" and ?p3.0 = "[''A'', ''B'']"
        and heuristic = "[''A'' \<mapsto> 2, ''B'' \<mapsto> 0]"] r1 r2 r3 example_graph_dict
    by blast
qed

text \<open>
  C2. On a well-formed graph with start among its keys, and for A* a heuristic table
  with an entry for every key, each of the three strategies returns a Result, whether
  or not the goal is reachable or even present. Termination itself is the totality of
  the three loop functions, shown where they are defined: every further iteration
  closes a new key of the graph or shortens the frontier.
\<close>

theorem search_returns_result:
  "wf_graph graph \<Longrightarrow> start \<in> fst ` set graph \<Longrightarrow> covers heuristic graph \<Longrightarrow>
   (\<exists>r. dfs_collect_trace clock graph start goal = Inr r) \<and>
   (\<exists>r. bfs_collect_trace clock graph start goal = Inr r) \<and>
   (\<exists>r. astar_collect_trace clock graph start goal heuristic = Inr r)"
proof -
  assume a: "wf_graph graph" "start \<in> fst ` set graph" "covers heuristic graph"
  obtain d where d: "dfs_search graph start goal = Inr d"
    using dfs_search_returns[OF a(1,2)] by blast
  obtain b where b: "bfs_search graph start goal = Inr b"
    using bfs_search_returns[OF a(1,2)] by blast
  obtain s where s: "astar_search graph start goal heuristic = Inr s"
    using astar_search_returns[OF a] by blast
  show ?thesis
    by (cases d; cases b; cases s)
       (simp add: dfs_collect_trace_def bfs_collect_trace_def astar_collect_trace_def d b s)
qed

lemma example_wf: "wf_graph [(''A'', [(''B'', 3)]), (''B'', [(''A'', 3)])]"
  by (simp add: wf_graph_def graph_dict_def is_dict_def)

lemma example_covers: "covers [''A'' \<mapsto> 2, ''B'' \<mapsto> 0] [(''A'', [(''B'', 3)]), (''B'', [(''A'', 3)])]"
  by (simp add: covers_def)

theorem search_returns_result_witness:
  "wf_graph [(''A'', [(''B'', 3)]), (''B'', [(''A'', 3)])] \<and>
   ''A'' \<in> fst ` set [(''A'', [(''B'', 3::int)]), (''B'', [(''A'', 3)])] \<and>
   covers [''A'' \<mapsto> 2, ''B'' \<mapsto> 0] [(''A'', [(''B'', 3)]), (''B'', [(''A'', 3)])] \<and>
   (\<exists>r. dfs_collect_trace (0, 1) [(''A'', [(''B'', 3)]), (''B'', [(''A'', 3)])] ''A'' ''C'' = Inr r) \<and>
   (\<exists>r. bfs_collect_trace (0, 1) [(''A'', [(''B'', 3)]), (''B'', [(''A'', 3)])] ''A'' ''C'' = Inr r) \<and>
   (\<exists>r. astar_collect_trace (0, 1) [(''A'', [(''B'', 3)]), (''B'', [(''A'', 3)])] ''A'' ''C''
          [''A'' \<mapsto> 2, ''B'' \<mapsto> 0] = Inr r)"
proof -
  have k: "''A'' \<in> fst ` set [(''A'', [(''B'', 3::int)]), (''B'', [(''A'', 3)])]" by simp
  note t = search_returns_result [OF example_wf k example_covers, of "(0, 1)" "''C''"]
  show ?thesis
    by (rule conjI [OF example_wf conjI [OF k conjI [OF example_covers t]]])
qed

text \<open>
  C5. On a well-formed graph in which the goal cannot be reached from start, each of
  the three strategies returns a Result and raises nothing: path and cost are absent,
  the nodes-expanded count is the size of the closed set at that moment, and the last
  record of the trace shows an empty frontier.
\<close>

theorem unreachable_goal:
  "wf_graph graph \<Longrightarrow> start \<in> fst ` set graph \<Longrightarrow> covers heuristic graph \<Longrightarrow>
   \<not> reachable graph start goal \<Longrightarrow>
   (\<exists>r v. dfs_collect_trace clock graph start goal = Inr r \<and>
           dfs_search graph start goal = Inr (None, v) \<and>
           r_path r = None \<and> r_cost r = None \<and> r_nodes_expanded r = card (closed_set v) \<and>
           r_trace r \<noteq> [] \<and> tr_open (last (r_trace r)) = []) \<and>
   (\<exists>r v. bfs_collect_trace clock graph start goal = Inr r \<and>
           bfs_search graph start goal = Inr (None, v) \<and>
           r_path r = None \<and> r_cost r = None \<and> r_nodes_expanded r = card (closed_set v) \<and>
           r_trace r \<noteq> [] \<and> tr_open (last (r_trace r)) = []) \<and>
   (\<exists>r v. astar_collect_trace clock graph start goal heuristic = Inr r \<and>
           astar_search graph start goal heuristic = Inr (None, v) \<and>
           r_path r = None \<and> r_cost r = None \<and> r_nodes_expanded r = card (closed_set v) \<and>
           r_trace r \<noteq> [] \<and> tr_open (last (r_trace r)) = [])"
  by (intro conjI dfs_unreachable bfs_unreachable astar_unreachable)

lemma example3_wf: "wf_graph [(''A'', [(''B'', 3)]), (''B'', [(''A'', 3)]), (''C'', [])]"
  by (simp add: wf_graph_def graph_dict_def is_dict_def)

lemma example3_covers:
  "covers [''A'' \<mapsto> 2, ''B'' \<mapsto> 0, ''C'' \<mapsto> 0] [(''A'', [(''B'', 3)]), (''B'', [(''A'', 3)]), (''C'', [])]"
  by (simp add: covers_def)

lemma example3_unreachable:
  "\<not> reachable [(''A'', [(''B'', 3)]), (''B'', [(''A'', 3)]), (''C'', [])] ''A'' ''C''"
  by (rule not_reachable[where S = "{''A'', ''B''}"]) auto

theorem unreachable_goal_witness:
  "wf_graph [(''A'', [(''B'', 3)]), (''B'', [(''A'', 3)]), (''C'', [])] \<and>
   ''A'' \<in> fst ` set [(''A'', [(''B'', 3::int)]), (''B'', [(''A'', 3)]), (''C'', [])] \<and>
   covers [''A'' \<mapsto> 2, ''B'' \<mapsto> 0, ''C'' \<mapsto> 0] [(''A'', [(''B'', 3)]), (''B'', [(''A'', 3)]), (''C'', [])] \<and>
   \<not> reachable [(''A'', [(''B'', 3)]), (''B'', [(''A'', 3)]), (''C'', [])] ''A'' ''C'' \<and>
   (\<exists>r. dfs_collect_trace (0, 1) [(''A'', [(''B'', 3)]), (''B'', [(''A'', 3)]), (''C'', [])] ''A'' ''C'' = Inr r \<and>
        r_path r = None \<and> tr_open (last (r_trace r)) = []) \<and>
   (\<exists>r. bfs_collect_trace (0, 1) [(''A'', [(''B'', 3)]), (''B'', [(''A'', 3)]), (''C'', [])] ''A'' ''C'' = Inr r \<and>
        r_path r = None \<and> tr_open (last (r_trace r)) = []) \<and>
   (\<exists>r. astar_collect_trace (0, 1) [(''A'', [(''B'', 3)]), (''B'', [(''A'', 3)]), (''C'', [])] ''A'' ''C''
          [''A'' \<mapsto> 2, ''B'' \<mapsto> 0, ''C'' \<mapsto> 0] = Inr r \<and>
        r_path r = None \<and> tr_open (last (r_trace r)) = [])"
proof -
  have k: "''A'' \<in> fst ` set [(''A'', [(''B'', 3::int)]), (''B'', [(''A'', 3)]), (''C'', [])]" by simp
  note t = unreachable_goal [OF example3_wf k example3_covers example3_unreachable, of "(0, 1)"]
  have d: "\<exists>r. dfs_collect_trace (0, 1) [(''A'', [(''B'', 3)]), (''B'', [(''A'', 3)]), (''C'', [])] ''A'' ''C'' = Inr r \<and>
        r_path r = None \<and> tr_open (last (r_trace r)) = []"
    using t[THEN conjunct1] by fast
  have b: "\<exists>r. bfs_collect_trace (0, 1) [(''A'', [(''B'', 3)]), (''B'', [(''A'', 3)]), (''C'', [])] ''A'' ''C'' = Inr r \<and>
        r_path r = None \<and> tr_open (last (r_trace r)) = []"
    using t[THEN conjunct2, THEN conjunct1] by fast
  have a: "\<exists>r. astar_collect_trace (0, 1) [(''A'', [(''B'', 3)]), (''B'', [(''A'', 3)]), (''C'', [])] ''A'' ''C''
          [''A'' \<mapsto> 2, ''B'' \<mapsto> 0, ''C'' \<mapsto> 0] = Inr r \<and>
        r_path r = None \<and> tr_open (last (r_trace r)) = []"
    using t[THEN conjunct2, THEN conjunct2] by fast
  show ?thesis
    by (rule conjI [OF example3_wf conjI [OF k conjI [OF example3_covers
          conjI [OF example3_unreachable conjI [OF d conjI [OF b a]]]]]])
qed

text \<open>
  C3. On a well-formed graph with start among its keys and the goal reachable from
  start, BFS returns a path from start to goal, and no path from start to goal has
  fewer edges. The weights play no part: the path returned need not be the cheapest.
\<close>

theorem bfs_fewest_edges:
  fixes graph :: "('a::linorder) graph"
  shows "wf_graph graph \<Longrightarrow> start \<in> fst ` set graph \<Longrightarrow> reachable graph start goal \<Longrightarrow>
   \<exists>r p. bfs_collect_trace clock graph start goal = Inr r \<and> r_path r = Some p \<and>
     path_from_to graph start goal p \<and>
     (\<forall>q. path_from_to graph start goal q \<longrightarrow> length p - 1 \<le> length q - 1)"
  by (rule bfs_shortest)

lemma triangle_wf:
  "wf_graph [(''A'', [(''B'', 1), (''C'', 5)]), (''B'', [(''A'', 1), (''C'', 1)]),
             (''C'', [(''A'', 5), (''B'', 1)])]"
  by (simp add: wf_graph_def graph_dict_def is_dict_def)

lemma triangle_paths:
  "path_from_to [(''A'', [(''B'', 1), (''C'', 5)]), (''B'', [(''A'', 1), (''C'', 1)]),
             (''C'', [(''A'', 5), (''B'', 1)])] ''A'' ''C'' [''A'', ''C'']"
  "path_from_to [(''A'', [(''B'', 1), (''C'', 5)]), (''B'', [(''A'', 1), (''C'', 1)]),
             (''C'', [(''A'', 5), (''B'', 1)])] ''A'' ''C'' [''A'', ''B'', ''C'']"
  "path_cost [(''A'', [(''B'', 1), (''C'', 5)]), (''B'', [(''A'', 1), (''C'', 1)]),
             (''C'', [(''A'', 5), (''B'', 1)])] [''A'', ''C''] = Some 5"
  "path_cost [(''A'', [(''B'', 1), (''C'', 5)]), (''B'', [(''A'', 1), (''C'', 1)]),
             (''C'', [(''A'', 5), (''B'', 1)])] [''A'', ''B'', ''C''] = Some 2"
  by (simp_all add: path_from_to_def edge_weight_def)

lemma triangle_reachable:
  "reachable [(''A'', [(''B'', 1), (''C'', 5)]), (''B'', [(''A'', 1), (''C'', 1)]),
             (''C'', [(''A'', 5), (''B'', 1)])] ''A'' ''C''"
  unfolding reachable_def using triangle_paths(1) by (rule exI)

theorem bfs_fewest_edges_witness:
  "wf_graph [(''A'', [(''B'', 1), (''C'', 5)]), (''B'', [(''A'', 1), (''C'', 1)]),
             (''C'', [(''A'', 5), (''B'', 1)])] \<and>
   ''A'' \<in> fst ` set [(''A'', [(''B'', 1::int), (''C'', 5)]), (''B'', [(''A'', 1), (''C'', 1)]),
             (''C'', [(''A'', 5), (''B'', 1)])] \<and>
   reachable [(''A'', [(''B'', 1), (''C'', 5)]), (''B'', [(''A'', 1), (''C'', 1)]),
             (''C'', [(''A'', 5), (''B'', 1)])] ''A'' ''C'' \<and>
   (\<exists>r p. bfs_collect_trace (0, 1) [(''A'', [(''B'', 1), (''C'', 5)]), (''B'', [(''A'', 1), (''C'', 1)]),
             (''C'', [(''A'', 5), (''B'', 1)])] ''A'' ''C'' = Inr r \<and> r_path r = Some p \<and>
      path_from_to [(''A'', [(''B'', 1), (''C'', 5)]), (''B'', [(''A'', 1), (''C'', 1)]),
             (''C'', [(''A'', 5), (''B'', 1)])] ''A'' ''C'' [''A'', ''B'', ''C''] \<and>
      length p - 1 \<le> length [''A'', ''B'', ''C''] - 1)"
proof -
  have k: "''A'' \<in> fst ` set [(''A'', [(''B'', 1::int), (''C'', 5)]), (''B'', [(''A'', 1), (''C'', 1)]),
             (''C'', [(''A'', 5), (''B'', 1)])]" by simp
  from bfs_fewest_edges [OF triangle_wf k triangle_reachable, of "(0, 1)"]
  obtain r p where r: "bfs_collect_trace (0, 1) [(''A'', [(''B'', 1), (''C'', 5)]), (''B'', [(''A'', 1), (''C'', 1)]),
             (''C'', [(''A'', 5), (''B'', 1)])] ''A'' ''C'' = Inr r" "r_path r = Some p"
    and m: "\<forall>q. path_from_to [(''A'', [(''B'', 1), (''C'', 5)]), (''B'', [(''A'', 1), (''C'', 1)]),
             (''C'', [(''A'', 5), (''B'', 1)])] ''A'' ''C'' q \<longrightarrow> length p - 1 \<le> length q - 1"
    by blast
  have "length p - 1 \<le> length [''A'', ''B'', ''C''] - 1"
    using m triangle_paths(2) by blast
  then have "\<exists>r p. bfs_collect_trace (0, 1) [(''A'', [(''B'', 1), (''C'', 5)]), (''B'', [(''A'', 1), (''C'', 1)]),
             (''C'', [(''A'', 5), (''B'', 1)])] ''A'' ''C'' = Inr r \<and> r_path r = Some p \<and>
      path_from_to [(''A'', [(''B'', 1), (''C'', 5)]), (''B'', [(''A'', 1), (''C'', 1)]),
             (''C'', [(''A'', 5), (''B'', 1)])] ''A'' ''C'' [''A'', ''B'', ''C''] \<and>
      length p - 1 \<le> length [''A'', ''B'', ''C''] - 1"
    using r triangle_paths(2) by blast
  then show ?thesis
    by (rule conjI [OF triangle_wf conjI [OF k conjI [OF triangle_reachable]]])
qed

text \<open>
  C1. On a well-formed graph with start among its keys, a heuristic table that has an
  entry for every key and is consistent, and a goal reachable from start, A* returns a
  cost that is the cost of some path from start to goal and is no larger than the cost
  of any path from start to goal: the shortest-path cost. Consistency alone carries
  the proof; positive weights and admissibility are not used.
\<close>

theorem astar_optimal_cost:
  fixes graph :: "('a::linorder) graph"
  shows "wf_graph graph \<Longrightarrow> start \<in> fst ` set graph \<Longrightarrow> covers heuristic graph \<Longrightarrow>
   consistent heuristic graph \<Longrightarrow> reachable graph start goal \<Longrightarrow>
   \<exists>r c. astar_collect_trace clock graph start goal heuristic = Inr r \<and> r_cost r = Some c \<and>
     (\<exists>p. path_from_to graph start goal p \<and> path_cost graph p = Some c) \<and>
     (\<forall>q c'. path_from_to graph start goal q \<and> path_cost graph q = Some c' \<longrightarrow> c \<le> c')"
  by (rule astar_cheapest)

lemma triangle_heuristic:
  "covers [''A'' \<mapsto> 2, ''B'' \<mapsto> 1, ''C'' \<mapsto> 0] [(''A'', [(''B'', 1), (''C'', 5)]), (''B'', [(''A'', 1), (''C'', 1)]),
             (''C'', [(''A'', 5), (''B'', 1)])]"
  "consistent [''A'' \<mapsto> 2, ''B'' \<mapsto> 1, ''C'' \<mapsto> 0] [(''A'', [(''B'', 1), (''C'', 5)]), (''B'', [(''A'', 1), (''C'', 1)]),
             (''C'', [(''A'', 5), (''B'', 1)])]"
  by (simp_all add: covers_def consistent_def)

theorem astar_optimal_cost_witness:
  "wf_graph [(''A'', [(''B'', 1), (''C'', 5)]), (''B'', [(''A'', 1), (''C'', 1)]),
             (''C'', [(''A'', 5), (''B'', 1)])] \<and>
   ''A'' \<in> fst ` set [(''A'', [(''B'', 1::int), (''C'', 5)]), (''B'', [(''A'', 1), (''C'', 1)]),
             (''C'', [(''A'', 5), (''B'', 1)])] \<and>
   covers [''A'' \<mapsto> 2, ''B'' \<mapsto> 1, ''C'' \<mapsto> 0] [(''A'', [(''B'', 1), (''C'', 5)]), (''B'', [(''A'', 1), (''C'', 1)]),
             (''C'', [(''A'', 5), (''B'', 1)])] \<and>
   consistent [''A'' \<mapsto> 2, ''B'' \<mapsto> 1, ''C'' \<mapsto> 0] [(''A'', [(''B'', 1), (''C'', 5)]), (''B'', [(''A'', 1), (''C'', 1)]),
             (''C'', [(''A'', 5), (''B'', 1)])] \<and>
   reachable [(''A'', [(''B'', 1), (''C'', 5)]), (''B'', [(''A'', 1), (''C'', 1)]),
             (''C'', [(''A'', 5), (''B'', 1)])] ''A'' ''C'' \<and>
   (\<exists>r c. astar_collect_trace (0, 1) [(''A'', [(''B'', 1), (''C'', 5)]), (''B'', [(''A'', 1), (''C'', 1)]),
             (''C'', [(''A'', 5), (''B'', 1)])] ''A'' ''C'' [''A'' \<mapsto> 2, ''B'' \<mapsto> 1, ''C'' \<mapsto> 0] = Inr r \<and> r_cost r = Some c \<and>
      path_from_to [(''A'', [(''B'', 1), (''C'', 5)]), (''B'', [(''A'', 1), (''C'', 1)]),
             (''C'', [(''A'', 5), (''B'', 1)])] ''A'' ''C'' [''A'', ''B'', ''C''] \<and>
      path_cost [(''A'', [(''B'', 1), (''C'', 5)]), (''B'', [(''A'', 1), (''C'', 1)]),
             (''C'', [(''A'', 5), (''B'', 1)])] [''A'', ''B'', ''C''] = Some 2 \<and> c \<le> 2)"
proof -
  have k: "''A'' \<in> fst ` set [(''A'', [(''B'', 1::int), (''C'', 5)]), (''B'', [(''A'', 1), (''C'', 1)]),
             (''C'', [(''A'', 5), (''B'', 1)])]" by simp
  from astar_optimal_cost [OF triangle_wf k triangle_heuristic triangle_reachable, of "(0, 1)"]
  obtain r c where r: "astar_collect_trace (0, 1) [(''A'', [(''B'', 1), (''C'', 5)]), (''B'', [(''A'', 1), (''C'', 1)]),
             (''C'', [(''A'', 5), (''B'', 1)])] ''A'' ''C'' [''A'' \<mapsto> 2, ''B'' \<mapsto> 1, ''C'' \<mapsto> 0] = Inr r" "r_cost r = Some c"
    and m: "\<forall>q c'. path_from_to [(''A'', [(''B'', 1), (''C'', 5)]), (''B'', [(''A'', 1), (''C'', 1)]),
             (''C'', [(''A'', 5), (''B'', 1)])] ''A'' ''C'' q \<and> path_cost [(''A'', [(''B'', 1), (''C'', 5)]), (''B'', [(''A'', 1), (''C'', 1)]),
             (''C'', [(''A'', 5), (''B'', 1)])] q = Some c' \<longrightarrow> c \<le> c'"
    by blast
  have "c \<le> 2"
    using m triangle_paths(2,4) by blast
  then have "\<exists>r c. astar_collect_trace (0, 1) [(''A'', [(''B'', 1), (''C'', 5)]), (''B'', [(''A'', 1), (''C'', 1)]),
             (''C'', [(''A'', 5), (''B'', 1)])] ''A'' ''C'' [''A'' \<mapsto> 2, ''B'' \<mapsto> 1, ''C'' \<mapsto> 0] = Inr r \<and> r_cost r = Some c \<and>
      path_from_to [(''A'', [(''B'', 1), (''C'', 5)]), (''B'', [(''A'', 1), (''C'', 1)]),
             (''C'', [(''A'', 5), (''B'', 1)])] ''A'' ''C'' [''A'', ''B'', ''C''] \<and>
      path_cost [(''A'', [(''B'', 1), (''C'', 5)]), (''B'', [(''A'', 1), (''C'', 1)]),
             (''C'', [(''A'', 5), (''B'', 1)])] [''A'', ''B'', ''C''] = Some 2 \<and> c \<le> 2"
    using r triangle_paths(2,4) by blast
  then show ?thesis
    by (rule conjI [OF triangle_wf conjI [OF k conjI [OF triangle_heuristic(1)
          conjI [OF triangle_heuristic(2) conjI [OF triangle_reachable]]]]])
qed

end
